theory Spec2Isabelle
  imports Complex_Main "HOL-Library.AList"
begin

chapter \<open>A vocabulary tree for image retrieval\<close>

text \<open>
  The class \<open>CBIR\<close> of \<open>cbir.py\<close>: \<open>fit\<close> builds a tree of cluster centres by recursive
  clustering, \<open>propagate\<close> routes the descriptors of an image down the tree and counts
  the visits at the nodes, \<open>index\<close> does so for a corpus and weighs the nodes,
  \<open>encode\<close> and \<open>score\<close> compare two images by their visit counts, and \<open>retrieve\<close>
  ranks the corpus against a query.  The first half of the theory is the program, method
  by method; the second half states and proves what holds of it.
\<close>

section \<open>Numbers\<close>

text \<open>
  The program computes with Python integers and numpy floats.  Rounding is not modelled:
  a finite number is a real and arithmetic on finite numbers is exact.  What is modelled
  are the special values that numpy produces where the reals have no answer: \<open>0/0\<close> is
  \<open>nan\<close>, \<open>x/0\<close> is an infinity, \<open>log 0\<close> is \<open>-inf\<close>, and \<open>float("inf")\<close> is the
  initial minimum of the nearest-child search.  Signed zeros are not distinguished.
\<close>

datatype npfloat = Fin real | PInf | NInf | NaN

fun np_add :: "npfloat \<Rightarrow> npfloat \<Rightarrow> npfloat" where
  "np_add (Fin a) (Fin b) = Fin (a + b)"
| "np_add NaN _ = NaN"
| "np_add _ NaN = NaN"
| "np_add PInf NInf = NaN"
| "np_add NInf PInf = NaN"
| "np_add PInf _ = PInf"
| "np_add _ PInf = PInf"
| "np_add NInf _ = NInf"
| "np_add _ NInf = NInf"

fun np_neg :: "npfloat \<Rightarrow> npfloat" where
  "np_neg (Fin a) = Fin (- a)"
| "np_neg PInf = NInf"
| "np_neg NInf = PInf"
| "np_neg NaN = NaN"

definition np_sub :: "npfloat \<Rightarrow> npfloat \<Rightarrow> npfloat" where
  "np_sub a b = np_add a (np_neg b)"

fun np_abs :: "npfloat \<Rightarrow> npfloat" where
  "np_abs (Fin a) = Fin \<bar>a\<bar>"
| "np_abs PInf = PInf"
| "np_abs NInf = PInf"
| "np_abs NaN = NaN"

text \<open>The sign of an infinite product or quotient: \<open>inf * 0\<close> is \<open>nan\<close>.\<close>

definition signed_inf :: "real \<Rightarrow> npfloat" where
  "signed_inf x = (if 0 < x then PInf else if x < 0 then NInf else NaN)"

fun np_mul :: "npfloat \<Rightarrow> npfloat \<Rightarrow> npfloat" where
  "np_mul (Fin a) (Fin b) = Fin (a * b)"
| "np_mul NaN _ = NaN"
| "np_mul _ NaN = NaN"
| "np_mul PInf (Fin b) = signed_inf b"
| "np_mul (Fin a) PInf = signed_inf a"
| "np_mul NInf (Fin b) = signed_inf (- b)"
| "np_mul (Fin a) NInf = signed_inf (- a)"
| "np_mul PInf PInf = PInf"
| "np_mul NInf NInf = PInf"
| "np_mul PInf NInf = NInf"
| "np_mul NInf PInf = NInf"

fun np_div :: "npfloat \<Rightarrow> npfloat \<Rightarrow> npfloat" where
  "np_div (Fin a) (Fin b) = (if b = 0 then signed_inf a else Fin (a / b))"
| "np_div NaN _ = NaN"
| "np_div _ NaN = NaN"
| "np_div (Fin a) PInf = Fin 0"
| "np_div (Fin a) NInf = Fin 0"
| "np_div PInf (Fin b) = (if b < 0 then NInf else PInf)"
| "np_div NInf (Fin b) = (if b < 0 then PInf else NInf)"
| "np_div PInf _ = NaN"
| "np_div NInf _ = NaN"

fun np_sqrt :: "npfloat \<Rightarrow> npfloat" where
  "np_sqrt (Fin a) = (if a < 0 then NaN else Fin (sqrt a))"
| "np_sqrt PInf = PInf"
| "np_sqrt NInf = NaN"
| "np_sqrt NaN = NaN"

fun np_log :: "npfloat \<Rightarrow> npfloat" where
  "np_log (Fin a) = (if 0 < a then Fin (ln a) else if a = 0 then NInf else NaN)"
| "np_log PInf = PInf"
| "np_log NInf = NaN"
| "np_log NaN = NaN"

text \<open>The comparison \<open>a < b\<close>: false whenever a \<open>nan\<close> is involved.\<close>

fun np_less :: "npfloat \<Rightarrow> npfloat \<Rightarrow> bool" where
  "np_less (Fin a) (Fin b) = (a < b)"
| "np_less NaN _ = False"
| "np_less _ NaN = False"
| "np_less PInf _ = False"
| "np_less _ PInf = True"
| "np_less _ NInf = False"
| "np_less NInf _ = True"

definition np_sum :: "npfloat list \<Rightarrow> npfloat" where
  "np_sum xs = foldl np_add (Fin 0) xs"

section \<open>Errors and results\<close>

text \<open>
  The source has no \<open>raise\<close> of its own; what can fail are subscripts, dictionary
  look-ups, the graph library, array broadcasting and the clustering routine.
  A call that raises returns \<open>Inl\<close> of the exception.  A call that may also run forever
  (the descent loop of \<open>propagate_feature\<close> and everything that calls it) returns an
  \<open>option\<close> around that, \<open>None\<close> standing for a call that does not return.
\<close>

datatype error = IndexError | KeyError | ValueError | NetworkXError | ClusteringError

fun fold_err :: "('a \<Rightarrow> 's \<Rightarrow> error + 's) \<Rightarrow> 'a list \<Rightarrow> 's \<Rightarrow> error + 's" where
  "fold_err f [] s = Inr s"
| "fold_err f (x # xs) s = (case f x s of Inl e \<Rightarrow> Inl e | Inr s' \<Rightarrow> fold_err f xs s')"

fun fold_res :: "('a \<Rightarrow> 's \<Rightarrow> (error + 's) option) \<Rightarrow> 'a list \<Rightarrow> 's \<Rightarrow> (error + 's) option" where
  "fold_res f [] s = Some (Inr s)"
| "fold_res f (x # xs) s =
     (case f x s of None \<Rightarrow> None | Some (Inl e) \<Rightarrow> Some (Inl e) | Some (Inr s') \<Rightarrow> fold_res f xs s')"

lemma fold_err_cong [fundef_cong]:
  "xs = ys \<Longrightarrow> s = t \<Longrightarrow> (\<And>x u. x \<in> set ys \<Longrightarrow> f x u = g x u) \<Longrightarrow>
   fold_err f xs s = fold_err g ys t"
  by (induction ys arbitrary: xs s t) (auto split: sum.splits)

section \<open>The graph\<close>

text \<open>
  \<open>self.graph\<close> is a \<open>networkx.DiGraph\<close>.  Its node dictionary keeps the nodes in
  insertion order, each with an attribute dictionary; the program stores in that one
  dictionary both the visit count of every image (key: the image id) and the weight of
  the node (key: the string \<open>"w"\<close>).  The two kinds of key are told apart by a
  constructor: image identifiers come from \<open>Dataset.get_image_id\<close>, which is not part
  of the sources, and are taken to be different from the attribute name \<open>"w"\<close>.
  A dictionary is an association list in insertion order; \<open>AList.update\<close> replaces the
  value of a present key in place and appends an absent one, as Python does.
\<close>

datatype 'id attr_key = W | Img 'id

type_synonym 'id attrs = "('id attr_key \<times> npfloat) list"

record 'id digraph =
  node_attrs :: "(nat \<times> 'id attrs) list"
  adj :: "nat \<Rightarrow> nat list"

definition empty_graph :: "'id digraph" where
  "empty_graph = \<lparr>node_attrs = [], adj = (\<lambda>_. [])\<rparr>"

definition node_ids :: "'id digraph \<Rightarrow> nat list" where
  "node_ids g = map fst (node_attrs g)"

definition has_node :: "'id digraph \<Rightarrow> nat \<Rightarrow> bool" where
  "has_node g n \<longleftrightarrow> n \<in> set (node_ids g)"

definition add_node :: "nat \<Rightarrow> 'id digraph \<Rightarrow> 'id digraph" where
  "add_node n g = (if has_node g n then g else g\<lparr>node_attrs := node_attrs g @ [(n, [])]\<rparr>)"

definition add_edge :: "nat \<Rightarrow> nat \<Rightarrow> 'id digraph \<Rightarrow> 'id digraph" where
  "add_edge u v g =
     (let g1 = add_node u g; g2 = add_node v g1
      in g2\<lparr>adj := (adj g2)(u := (if v \<in> set (adj g2 u) then adj g2 u else adj g2 u @ [v]))\<rparr>)"

definition out_degree :: "'id digraph \<Rightarrow> nat \<Rightarrow> error + nat" where
  "out_degree g n = (if has_node g n then Inr (length (adj g n)) else Inl NetworkXError)"

definition successors :: "'id digraph \<Rightarrow> nat \<Rightarrow> error + nat list" where
  "successors g n = (if has_node g n then Inr (adj g n) else Inl KeyError)"

section \<open>The object\<close>

text \<open>
  A stored centroid is either the scalar \<open>np.mean(features)\<close> of the root or a row of
  \<open>cluster_centers_\<close>.  Descriptors and cluster centres are finite vectors.
\<close>

datatype centroid = Scalar npfloat | Vec "real list"

text \<open>
  The attributes that no method assigns after \<open>__init__\<close>: the branching factor, the
  depth and the dataset.  Of the dataset only the three members the class uses are
  modelled, as parameters; its \<open>__len__\<close> is described below.
\<close>

record ('img, 'id) config =
  n_branches :: int
  depth :: int
  all_images :: "'img list"
  extract_image_features :: "'img \<Rightarrow> real list list"
  get_image_id :: "'img \<Rightarrow> 'id"

text \<open>
  Modelled from the spec: \<open>Dataset.__len__\<close>, which is not part of the sources.  The
  spec calls \<open>N\<close> "the total number of images in the corpus".
\<close>

definition dataset_len :: "('img, 'id) config \<Rightarrow> nat" where
  "dataset_len c = length (all_images c)"

text \<open>
  The mutable attributes.  \<open>fit_calls\<close> is a history variable that the source does not
  have: every invocation of \<open>fit\<close> appends its node id, its \<open>current_depth\<close> and the
  number of feature vectors it received.  No operation reads it.
\<close>

record 'id cbir =
  tree :: "nat \<rightharpoonup> nat list"
  nodes :: "nat \<rightharpoonup> centroid"
  current_index :: nat
  graph :: "'id digraph"
  fit_calls :: "(nat \<times> nat \<times> nat) list"

definition init_cbir :: "'id cbir" where
  "init_cbir = \<lparr>tree = Map.empty, nodes = Map.empty, current_index = 0,
                 graph = empty_graph, fit_calls = []\<rparr>"

section \<open>fit\<close>

text \<open>
  \<open>extract_features()\<close> without an image pools the descriptors of all images.
\<close>

definition extract_features :: "('img, 'id) config \<Rightarrow> real list list" where
  "extract_features c = concat (map (extract_image_features c) (all_images c))"

text \<open>\<open>np.mean\<close> of a two-dimensional array: the mean of all its entries.\<close>

definition np_mean :: "real list list \<Rightarrow> npfloat" where
  "np_mean fs = np_div (Fin (sum_list (concat fs))) (Fin (real (length (concat fs))))"

text \<open>
  The clustering routine is external and randomised.  It is a parameter that maps the
  node being split, the number of clusters and the feature vectors to an exception or to
  the fitted model's \<open>cluster_centers_\<close> and \<open>labels_\<close>.
\<close>

record kmeans =
  cluster_centers :: "real list list"
  labels :: "nat list"

type_synonym clustering = "nat \<Rightarrow> int \<Rightarrow> real list list \<Rightarrow> error + kmeans"

text \<open>
  The partition of the features by label: \<open>n_branches\<close> empty lists, then feature
  \<open>i\<close> is appended to the list that \<open>labels_[i]\<close> selects.
\<close>

definition group_features :: "nat \<Rightarrow> nat list \<Rightarrow> real list list \<Rightarrow> error + real list list list" where
  "group_features nb ls features =
     fold_err (\<lambda>i children.
         if i < length ls \<and> ls ! i < length children
         then Inr (children[ls ! i := children ! (ls ! i) @ [features ! i]])
         else Inl IndexError)
       [0..<length features] (replicate nb [])"

text \<open>
  One invocation of \<open>fit\<close> with all four arguments given, as every recursive call has
  them.  The progress output of the source is left out, here and in the other methods.
\<close>

function fit_node ::
  "('img, 'id) config \<Rightarrow> clustering \<Rightarrow> 'id cbir \<Rightarrow> real list list \<Rightarrow> nat \<Rightarrow> centroid \<Rightarrow> nat
   \<Rightarrow> error + 'id cbir" where
  "fit_node c km s features node root_val current_depth =
    (let s1 = s\<lparr>nodes := (nodes s)(node \<mapsto> root_val),
                graph := add_node node (graph s),
                fit_calls := fit_calls s @ [(node, current_depth, length features)]\<rparr>
     in if depth c \<le> int current_depth \<or> int (length features) < n_branches c then Inr s1
        else
          case km node (n_branches c) features of
            Inl e \<Rightarrow> Inl e
          | Inr model \<Rightarrow>
             (case group_features (nat (n_branches c)) (labels model) features of
                Inl e \<Rightarrow> Inl e
              | Inr children \<Rightarrow>
                 fold_err (\<lambda>i s2.
                     let s3 = s2\<lparr>current_index := current_index s2 + 1\<rparr>
                     in case tree s3 node of
                          None \<Rightarrow> Inl KeyError
                        | Some kids \<Rightarrow>
                           let s4 = s3\<lparr>tree := (tree s3)(node \<mapsto> kids @ [current_index s3])\<rparr>;
                               s5 = s4\<lparr>graph := add_edge node (current_index s4) (graph s4)\<rparr>
                           in if i < length (cluster_centers model)
                              then fit_node c km s5 (children ! i) (current_index s5)
                                     (Vec (cluster_centers model ! i)) (current_depth + 1)
                              else Inl IndexError)
                   [0..<nat (n_branches c)]
                   (s1\<lparr>tree := (tree s1)(node \<mapsto> [])\<rparr>)))"
  by pat_completeness auto
termination
  by (relation "measure (\<lambda>(c, km, s, features, node, root, current_depth).
        nat (depth c - int current_depth))") auto

declare fit_node.simps [simp del]

text \<open>
  \<open>fit(features=None, node=0, root=None, current_depth=0)\<close>: the entry point with its
  defaults.
\<close>

definition fit ::
  "('img, 'id) config \<Rightarrow> clustering \<Rightarrow> 'id cbir \<Rightarrow> real list list option \<Rightarrow> nat \<Rightarrow> centroid option
   \<Rightarrow> nat \<Rightarrow> error + 'id cbir" where
  "fit c km s features node root_val current_depth =
    (let fs = (case features of None \<Rightarrow> extract_features c | Some fs \<Rightarrow> fs);
         r = (case root_val of None \<Rightarrow> Scalar (np_mean fs) | Some r \<Rightarrow> r)
     in fit_node c km s fs node r current_depth)"

section \<open>Routing one feature\<close>

text \<open>
  \<open>self.nodes[child] - feature\<close> on numpy arrays: two vectors of equal length are
  subtracted entry by entry, a vector of length one or a scalar is broadcast, and any
  other pair of shapes raises.
\<close>

definition broadcast_sub :: "real list \<Rightarrow> real list \<Rightarrow> error + real list" where
  "broadcast_sub a b =
     (if length a = length b then Inr (map2 (-) a b)
      else if length a = 1 then Inr (map (\<lambda>y. hd a - y) b)
      else if length b = 1 then Inr (map (\<lambda>x. x - hd b) a)
      else Inl ValueError)"

definition centroid_minus :: "centroid \<Rightarrow> real list \<Rightarrow> error + npfloat list" where
  "centroid_minus c feature =
     (case c of
        Scalar m \<Rightarrow> Inr (map (\<lambda>y. np_sub m (Fin y)) feature)
      | Vec v \<Rightarrow> (case broadcast_sub v feature of Inl e \<Rightarrow> Inl e | Inr d \<Rightarrow> Inr (map Fin d)))"

text \<open>
  \<open>np.linalg.norm\<close> of a two-dimensional array without further arguments is the
  Frobenius norm, the root of the sum of the squared absolute values of all entries.
  The source passes the one-row array \<open>[self.nodes[child] - feature]\<close>.
\<close>

definition frobenius_norm :: "npfloat list list \<Rightarrow> npfloat" where
  "frobenius_norm rows = np_sqrt (np_sum (map (\<lambda>x. np_mul (np_abs x) (np_abs x)) (concat rows)))"

definition distance :: "centroid \<Rightarrow> real list \<Rightarrow> error + npfloat" where
  "distance c feature =
     (case centroid_minus c feature of Inl e \<Rightarrow> Inl e | Inr d \<Rightarrow> Inr (frobenius_norm [d]))"

text \<open>
  The \<open>for child in self.graph[node]\<close> loop over the children that remain to be scanned.
  Its variables are \<open>min_dist\<close>, \<open>node\<close> and \<open>path\<close>; every scanned child is appended to
  \<open>path\<close>, selected or not.
\<close>

fun scan_children ::
  "(nat \<rightharpoonup> centroid) \<Rightarrow> real list \<Rightarrow> nat list \<Rightarrow> npfloat \<times> nat \<times> nat list
   \<Rightarrow> error + (npfloat \<times> nat \<times> nat list)" where
  "scan_children ns feature [] acc = Inr acc"
| "scan_children ns feature (child # rest) (min_dist, node, path) =
     (case ns child of
        None \<Rightarrow> Inl KeyError
      | Some c \<Rightarrow>
         (case distance c feature of
            Inl e \<Rightarrow> Inl e
          | Inr d \<Rightarrow>
             if np_less d min_dist
             then scan_children ns feature rest (d, child, path @ [child])
             else scan_children ns feature rest (min_dist, node, path @ [child])))"

text \<open>
  The \<open>while self.graph.out_degree(node)\<close> loop.  The children scanned are those of the
  node at which the iteration starts, also after \<open>node\<close> has been reassigned.
\<close>

partial_function (option) descend ::
  "'id cbir \<Rightarrow> real list \<Rightarrow> nat \<Rightarrow> nat list \<Rightarrow> (error + nat list) option" where
  "descend s feature node path =
     (case out_degree (graph s) node of
        Inl e \<Rightarrow> Some (Inl e)
      | Inr d \<Rightarrow>
         if d = 0 then Some (Inr path)
         else
           (case successors (graph s) node of
              Inl e \<Rightarrow> Some (Inl e)
            | Inr children \<Rightarrow>
               (case scan_children (nodes s) feature children (PInf, node, path) of
                  Inl e \<Rightarrow> Some (Inl e)
                | Inr (min_dist, node', path') \<Rightarrow> descend s feature node' path')))"

definition propagate_feature :: "'id cbir \<Rightarrow> real list \<Rightarrow> nat \<Rightarrow> (error + nat list) option" where
  "propagate_feature s feature node = descend s feature node [node]"

section \<open>propagate\<close>

text \<open>
  The body of the inner loop: \<open>self.graph.nodes[node]\<close> is the attribute dictionary of
  the node, in which the image's entry is created with 1 or incremented.
\<close>

definition set_attrs :: "nat \<Rightarrow> 'id attrs \<Rightarrow> 'id digraph \<Rightarrow> 'id digraph" where
  "set_attrs n a g = g\<lparr>node_attrs := AList.update n a (node_attrs g)\<rparr>"

definition record_visit :: "'id \<Rightarrow> nat \<Rightarrow> 'id cbir \<Rightarrow> error + 'id cbir" where
  "record_visit image_id node s =
     (case map_of (node_attrs (graph s)) node of
        None \<Rightarrow> Inl KeyError
      | Some a \<Rightarrow>
         (case map_of a (Img image_id) of
            None \<Rightarrow> Inr (s\<lparr>graph := set_attrs node (AList.update (Img image_id) (Fin 1) a) (graph s)\<rparr>)
          | Some v \<Rightarrow>
             Inr (s\<lparr>graph := set_attrs node (AList.update (Img image_id) (np_add v (Fin 1)) a) (graph s)\<rparr>)))"

definition propagate :: "('img, 'id) config \<Rightarrow> 'img \<Rightarrow> 'id cbir \<Rightarrow> (error + 'id cbir) option" where
  "propagate c image_path s =
     (let features = extract_image_features c image_path;
          image_id = get_image_id c image_path
      in fold_res (\<lambda>feature s1.
           case propagate_feature s1 feature 0 of
             None \<Rightarrow> None
           | Some (Inl e) \<Rightarrow> Some (Inl e)
           | Some (Inr path) \<Rightarrow> Some (fold_err (record_visit image_id) path s1))
         features s)"

section \<open>index\<close>

text \<open>
  The second loop of \<open>index\<close>: \<open>files\<close> is the whole attribute dictionary of the node and
  \<open>N_i\<close> its number of keys.  \<open>N / N_i\<close> divides two Python integers with \<open>N_i\<close> not
  zero.
\<close>

definition set_weights :: "nat \<Rightarrow> 'id cbir \<Rightarrow> 'id cbir" where
  "set_weights N s =
     s\<lparr>graph := (graph s)\<lparr>node_attrs :=
        map (\<lambda>(node_id, files).
               let N_i = length files
               in if N_i \<noteq> 0
                  then (node_id, AList.update W (np_log (Fin (real N / real N_i))) files)
                  else (node_id, files))
            (node_attrs (graph s))\<rparr>\<rparr>"

text \<open>
  With \<open>parallel\<close> set (the default), every \<open>propagate\<close> call is handed to a worker
  process by \<open>pool.apply_async\<close>.  A worker runs the call on its own copy of the object
  and the handles of the results are dropped, so that nothing a worker records reaches
  the graph of the calling process, which goes on to compute the weights.  Without
  \<open>parallel\<close> the calls run in the calling process, in the order of \<open>all_images\<close>.
\<close>

definition index :: "('img, 'id) config \<Rightarrow> bool \<Rightarrow> 'id cbir \<Rightarrow> (error + 'id cbir) option" where
  "index c parallel s =
     (case (if parallel then Some (Inr s) else fold_res (propagate c) (all_images c) s) of
        None \<Rightarrow> None
      | Some (Inl e) \<Rightarrow> Some (Inl e)
      | Some (Inr s1) \<Rightarrow> Some (Inr (set_weights (dataset_len c) s1)))"

section \<open>encode and score\<close>

text \<open>
  \<open>encode\<close> with \<open>return_graph=False\<close>, the only way \<open>score\<close> calls it (the other branch
  draws the graph).  \<open>np.array(...)[:, 1]\<close> raises on a graph without nodes.  The vector
  has one entry per node, in the order of the node dictionary.  The array \<open>weights\<close> is
  computed in the source and not used: the product with it is commented out.
\<close>

definition visit_count :: "'id attrs \<Rightarrow> 'id \<Rightarrow> npfloat" where
  "visit_count a image_id = (case map_of a (Img image_id) of None \<Rightarrow> Fin 0 | Some v \<Rightarrow> v)"

definition norm_l1 :: "npfloat list \<Rightarrow> npfloat" where
  "norm_l1 xs = np_sum (map np_abs xs)"

definition encode :: "'id cbir \<Rightarrow> 'id \<Rightarrow> error + npfloat list" where
  "encode s image_id =
     (if node_attrs (graph s) = [] then Inl IndexError
      else
        let tfidf = map (\<lambda>(n, a). visit_count a image_id) (node_attrs (graph s));
            tfidf_normalised = map (\<lambda>x. np_div x (norm_l1 tfidf)) tfidf
        in Inr tfidf_normalised)"

definition score :: "('img, 'id) config \<Rightarrow> 'id cbir \<Rightarrow> 'img \<Rightarrow> 'img \<Rightarrow> error + npfloat" where
  "score c s first_image_path second_image_path =
     (let db_id = get_image_id c first_image_path;
          query_id = get_image_id c second_image_path
      in case encode s db_id of
           Inl e \<Rightarrow> Inl e
         | Inr d \<Rightarrow>
            (case encode s query_id of
               Inl e \<Rightarrow> Inl e
             | Inr q \<Rightarrow> Inr (np_sub (Fin 2) (np_mul (Fin 2) (np_sum (map2 np_mul d q))))))"

section \<open>retrieve\<close>

text \<open>
  \<open>sorted(scores.items(), key=lambda item: item[1])\<close> is a stable sort that compares
  the scores with \<open><\<close>; it is written here as a stable insertion sort, which gives the
  same list whenever no score is \<open>nan\<close>.  With a \<open>nan\<close> among the scores \<open><\<close> is not
  a linear order on them, and the list that \<open>sorted\<close> returns depends on the comparisons
  that the interpreter's sorting routine happens to make: the insertion sort then
  returns some permutation of the items, not necessarily the interpreter's.  Nothing
  below depends on the ranking in that case.
\<close>

fun insert_by_score :: "'id \<times> npfloat \<Rightarrow> ('id \<times> npfloat) list \<Rightarrow> ('id \<times> npfloat) list" where
  "insert_by_score x [] = [x]"
| "insert_by_score x (y # ys) =
     (if np_less (snd y) (snd x) then y # insert_by_score x ys else x # y # ys)"

definition sorted_by_score :: "('id \<times> npfloat) list \<Rightarrow> ('id \<times> npfloat) list" where
  "sorted_by_score items = foldr insert_by_score items []"

definition retrieve ::
  "('img, 'id) config \<Rightarrow> 'img \<Rightarrow> 'id cbir \<Rightarrow> (error + 'id cbir \<times> ('id \<times> npfloat) list) option" where
  "retrieve c query_image_path s =
     (case propagate c query_image_path s of
        None \<Rightarrow> None
      | Some (Inl e) \<Rightarrow> Some (Inl e)
      | Some (Inr s1) \<Rightarrow>
         (case fold_err (\<lambda>database_image_path scores.
                  case score c s1 database_image_path query_image_path of
                    Inl e \<Rightarrow> Inl e
                  | Inr v \<Rightarrow> Inr (AList.update (get_image_id c database_image_path) v scores))
                (all_images c) [] of
            Inl e \<Rightarrow> Some (Inl e)
          | Inr scores \<Rightarrow> Some (Inr (s1, sorted_by_score scores))))"

section \<open>Fitted objects\<close>

text \<open>
  The states of an object on which \<open>fit\<close> has been run once, from the state that
  \<open>__init__\<close> leaves and at the root, followed by any number of completed calls of
  \<open>propagate\<close>, \<open>index\<close> and \<open>retrieve\<close>.
\<close>

inductive fitted :: "('img, 'id) config \<Rightarrow> 'id cbir \<Rightarrow> bool" where
  fit_done: "fit c km init_cbir features 0 root_val 0 = Inr s \<Longrightarrow> fitted c s"
| propagate_done: "fitted c s \<Longrightarrow> propagate c image_path s = Some (Inr s') \<Longrightarrow> fitted c s'"
| index_done: "fitted c s \<Longrightarrow> index c parallel s = Some (Inr s') \<Longrightarrow> fitted c s'"
| retrieve_done: "fitted c s \<Longrightarrow> retrieve c query s = Some (Inr (s', ranked)) \<Longrightarrow> fitted c s'"

section \<open>What one invocation of fit establishes\<close>

text \<open>
  The recursion of \<open>fit\<close> is followed with a precondition on the state in which a node is
  entered and a postcondition on the state in which its invocation returns; the loop
  over the children has an invariant of its own.  Nodes below the entered one are not
  touched, nodes above the counter do not exist yet.
\<close>

lemma fold_err_append:
  "fold_err f (xs @ ys) s = (case fold_err f xs s of Inl e \<Rightarrow> Inl e | Inr t \<Rightarrow> fold_err f ys t)"
  by (induction xs arbitrary: s) (auto split: sum.splits)

lemma fold_err_upt_invariant:
  assumes "fold_err f [0..<n] s = Inr s'"
    and "I 0 s"
    and "\<And>j t t'. j < n \<Longrightarrow> I j t \<Longrightarrow> f j t = Inr t' \<Longrightarrow> I (Suc j) t'"
  shows "I n s'"
  using assms
proof (induction n arbitrary: s')
  case 0
  then show ?case by simp
next
  case (Suc n)
  from Suc.prems(1) obtain t where t: "fold_err f [0..<n] s = Inr t" and step: "f n t = Inr s'"
    by (auto simp: fold_err_append split: sum.splits)
  have "I n t"
    by (rule Suc.IH [OF t Suc.prems(2)]) (simp add: Suc.prems(3))
  then show ?case using step Suc.prems(3) by simp
qed

lemma node_ids_add_node:
  "node_ids (add_node n g) = (if n \<in> set (node_ids g) then node_ids g else node_ids g @ [n])"
  by (simp add: add_node_def has_node_def node_ids_def)

lemma adj_add_node: "adj (add_node n g) = adj g"
  by (simp add: add_node_def)

lemma node_attrs_add_node:
  "set (node_attrs (add_node n g)) \<subseteq> insert (n, []) (set (node_attrs g))"
  by (auto simp: add_node_def)

lemma node_ids_add_edge:
  "node_ids (add_edge u v g) = node_ids (add_node v (add_node u g))"
  by (simp add: add_edge_def Let_def node_ids_def)

lemma adj_add_edge:
  "adj (add_edge u v g) = (adj g)(u := (if v \<in> set (adj g u) then adj g u else adj g u @ [v]))"
  by (simp add: add_edge_def Let_def adj_add_node)

lemma node_attrs_add_edge:
  "set (node_attrs (add_edge u v g)) \<subseteq> insert (u, []) (insert (v, []) (set (node_attrs g)))"
  using node_attrs_add_node [of v "add_node u g"] node_attrs_add_node [of u g]
  by (auto simp: add_edge_def Let_def)

definition frame_below :: "nat \<Rightarrow> 'id cbir \<Rightarrow> 'id cbir \<Rightarrow> bool" where
  "frame_below m s t \<longleftrightarrow>
     (\<forall>u<m. adj (graph t) u = adj (graph s) u \<and> tree t u = tree s u \<and> nodes t u = nodes s u)"

definition untouched_from :: "nat \<Rightarrow> 'id cbir \<Rightarrow> bool" where
  "untouched_from m s \<longleftrightarrow>
     (\<forall>u\<ge>m. adj (graph s) u = [] \<and> tree s u = None \<and> nodes s u = None)"

definition attrs_empty :: "'id cbir \<Rightarrow> bool" where
  "attrs_empty s \<longleftrightarrow> (\<forall>p \<in> set (node_attrs (graph s)). snd p = [])"

definition leaf_call :: "('img, 'id) config \<Rightarrow> nat \<Rightarrow> nat \<Rightarrow> bool" where
  "leaf_call c d k \<longleftrightarrow> depth c \<le> int d \<or> int k < n_branches c"

definition kids_ok :: "'id cbir \<Rightarrow> nat \<Rightarrow> bool" where
  "kids_ok s n \<longleftrightarrow> distinct (adj (graph s) n) \<and>
     (\<forall>v \<in> set (adj (graph s) n). n < v \<and> v \<le> current_index s \<and> (\<exists>x. nodes s v = Some (Vec x)))"

definition call_ok :: "('img, 'id) config \<Rightarrow> 'id cbir \<Rightarrow> nat \<times> nat \<times> nat \<Rightarrow> bool" where
  "call_ok c s e \<longleftrightarrow> (case e of (n, d, k) \<Rightarrow>
     kids_ok s n \<and>
     (if leaf_call c d k then adj (graph s) n = [] \<and> tree s n = None
      else length (adj (graph s) n) = nat (n_branches c) \<and> tree s n = Some (adj (graph s) n)))"

definition fit_pre :: "'id cbir \<Rightarrow> nat \<Rightarrow> bool" where
  "fit_pre s node \<longleftrightarrow> node = current_index s \<and>
     (node_ids (graph s) = [0..<node] \<or> node_ids (graph s) = [0..<Suc node]) \<and>
     untouched_from node s \<and> attrs_empty s"

definition fit_post ::
  "('img, 'id) config \<Rightarrow> 'id cbir \<Rightarrow> nat \<Rightarrow> nat \<Rightarrow> nat \<Rightarrow> centroid \<Rightarrow> 'id cbir \<Rightarrow> bool" where
  "fit_post c s node cd k r s' \<longleftrightarrow>
     node_ids (graph s') = [0..<Suc (current_index s')] \<and>
     node \<le> current_index s' \<and>
     frame_below node s s' \<and>
     untouched_from (Suc (current_index s')) s' \<and>
     attrs_empty s' \<and>
     nodes s' node = Some r \<and>
     (\<forall>u\<ge>node. u \<le> current_index s' \<longrightarrow> nodes s' u \<noteq> None) \<and>
     (\<exists>new. fit_calls s' = fit_calls s @ (node, cd, k) # new \<and>
        map fst new = [Suc node..<Suc (current_index s')] \<and>
        call_ok c s' (node, cd, k) \<and>
        (\<forall>e \<in> set new. call_ok c s' e \<and> int (fst (snd e)) \<le> depth c))"

definition loop_inv ::
  "('img, 'id) config \<Rightarrow> 'id cbir \<Rightarrow> nat \<Rightarrow> nat \<Rightarrow> nat \<Rightarrow> centroid \<Rightarrow> nat \<Rightarrow> 'id cbir \<Rightarrow> bool" where
  "loop_inv c s node cd k r j t \<longleftrightarrow>
     node_ids (graph t) = [0..<Suc (current_index t)] \<and>
     node \<le> current_index t \<and>
     frame_below node s t \<and>
     untouched_from (Suc (current_index t)) t \<and>
     attrs_empty t \<and>
     nodes t node = Some r \<and>
     (\<forall>u\<ge>node. u \<le> current_index t \<longrightarrow> nodes t u \<noteq> None) \<and>
     tree t node = Some (adj (graph t) node) \<and>
     length (adj (graph t) node) = j \<and>
     kids_ok t node \<and>
     (\<exists>new. fit_calls t = fit_calls s @ (node, cd, k) # new \<and>
        map fst new = [Suc node..<Suc (current_index t)] \<and>
        (\<forall>e \<in> set new. call_ok c t e \<and> int (fst (snd e)) \<le> depth c))"


lemma call_ok_cong:
  assumes "call_ok c s e"
    and "adj (graph t) (fst e) = adj (graph s) (fst e)"
    and "tree t (fst e) = tree s (fst e)"
    and "\<forall>v \<in> set (adj (graph s) (fst e)). nodes t v = nodes s v"
    and "current_index s \<le> current_index t"
  shows "call_ok c t e"
  using assms by (cases e) (auto simp: call_ok_def kids_ok_def split: if_splits)

lemma fit_post_leaf:
  assumes pre: "fit_pre s node" and leaf: "leaf_call c cd k"
    and f: "nodes s1 = (nodes s)(node \<mapsto> r)" "graph s1 = add_node node (graph s)"
      "fit_calls s1 = fit_calls s @ [(node, cd, k)]" "tree s1 = tree s"
      "current_index s1 = current_index s"
  shows "fit_post c s node cd k r s1"
proof -
  from pre have ci: "current_index s = node" by (simp add: fit_pre_def)
  from pre have ids: "node_ids (graph s1) = [0..<Suc node]"
    by (auto simp: fit_pre_def f node_ids_add_node)
  from pre have un: "untouched_from node s" by (auto simp: fit_pre_def)
  have u1: "untouched_from (Suc (current_index s1)) s1"
    using un by (simp add: untouched_from_def f adj_add_node ci)
  have fr: "frame_below node s s1"
    by (simp add: frame_below_def f adj_add_node)
  have ae: "attrs_empty s1"
    using pre node_attrs_add_node [of node "graph s"]
    by (auto simp: fit_pre_def attrs_empty_def f)
  have ok: "call_ok c s1 (node, cd, k)"
    using un leaf by (simp add: call_ok_def kids_ok_def untouched_from_def f adj_add_node)
  show ?thesis
    unfolding fit_post_def using ids u1 fr ae ok by (simp add: f ci)
qed

lemma loop_inv_init:
  assumes pre: "fit_pre s node"
    and f: "nodes s1 = (nodes s)(node \<mapsto> r)" "graph s1 = add_node node (graph s)"
      "fit_calls s1 = fit_calls s @ [(node, cd, k)]" "tree s1 = (tree s)(node \<mapsto> [])"
      "current_index s1 = current_index s"
  shows "loop_inv c s node cd k r 0 s1"
proof -
  from pre have ci: "current_index s = node" by (simp add: fit_pre_def)
  from pre have ids: "node_ids (graph s1) = [0..<Suc node]"
    by (auto simp: fit_pre_def f node_ids_add_node)
  from pre have un: "untouched_from node s" by (auto simp: fit_pre_def)
  have u1: "untouched_from (Suc (current_index s1)) s1"
    using un by (simp add: untouched_from_def f adj_add_node ci)
  have fr: "frame_below node s s1"
    by (simp add: frame_below_def f adj_add_node)
  have ae: "attrs_empty s1"
    using pre node_attrs_add_node [of node "graph s"]
    by (auto simp: fit_pre_def attrs_empty_def f)
  have adj: "adj (graph s1) node = []"
    using un by (simp add: untouched_from_def f adj_add_node)
  show ?thesis
    unfolding loop_inv_def using ids u1 fr ae adj by (simp add: f ci kids_ok_def)
qed

lemma child_pre:
  assumes L: "loop_inv c s node cd k r j t"
    and f: "current_index s5 = Suc (current_index t)"
      "graph s5 = add_edge node (Suc (current_index t)) (graph t)"
      "tree s5 = (tree t)(node \<mapsto> kids)" "nodes s5 = nodes t"
  shows "fit_pre s5 (Suc (current_index t))"
proof -
  from L have ids: "node_ids (graph t) = [0..<Suc (current_index t)]"
    and le: "node \<le> current_index t"
    and un: "untouched_from (Suc (current_index t)) t"
    and ae: "attrs_empty t"
    by (simp_all add: loop_inv_def)
  have "node_ids (graph s5) = [0..<Suc (Suc (current_index t))]"
    using ids le by (simp add: f node_ids_add_edge node_ids_add_node)
  moreover have "untouched_from (Suc (current_index t)) s5"
    using un le by (simp add: untouched_from_def f adj_add_edge)
  moreover have "attrs_empty s5"
    using ae node_attrs_add_edge [of node "Suc (current_index t)" "graph t"]
    by (auto simp: attrs_empty_def f)
  ultimately show ?thesis by (simp add: fit_pre_def f)
qed

lemma loop_inv_final:
  assumes "loop_inv c s node cd k r (nat (n_branches c)) s'" and "\<not> leaf_call c cd k"
  shows "fit_post c s node cd k r s'"
  using assms unfolding loop_inv_def fit_post_def call_ok_def by auto


lemma upt_snoc_join:
  "a \<le> b \<Longrightarrow> b \<le> e \<Longrightarrow> [a..<b] @ b # [Suc b..<Suc e] = [a..<Suc e]"
proof -
  assume ab: "a \<le> b" and be: "b \<le> e"
  have "[a..<Suc e] = [a..<b + (Suc e - b)]" using be by simp
  also have "\<dots> = [a..<b] @ [b..<b + (Suc e - b)]" using ab by (rule upt_add_eq_append)
  also have "[b..<b + (Suc e - b)] = b # [Suc b..<Suc e]" using be by (simp add: upt_conv_Cons)
  finally show ?thesis by simp
qed

lemma loop_step:
  assumes L: "loop_inv c s node cd k r j t" and nl: "\<not> leaf_call c cd k"
    and f: "current_index s5 = Suc (current_index t)"
      "graph s5 = add_edge node (Suc (current_index t)) (graph t)"
      "tree s5 = (tree t)(node \<mapsto> adj (graph t) node @ [Suc (current_index t)])"
      "nodes s5 = nodes t" "fit_calls s5 = fit_calls t"
    and post: "fit_post c s5 (Suc (current_index t)) (Suc cd) k' (Vec x) t'"
  shows "loop_inv c s node cd k r (Suc j) t'"
proof -
  let ?m = "Suc (current_index t)"
  from L have le: "node \<le> current_index t"
    and fr: "frame_below node s t"
    and rt: "nodes t node = Some r"
    and len: "length (adj (graph t) node) = j"
    and kids: "kids_ok t node"
    by (simp_all add: loop_inv_def)
  from L obtain new where new: "fit_calls t = fit_calls s @ (node, cd, k) # new"
    "map fst new = [Suc node..<?m]"
    "\<forall>e \<in> set new. call_ok c t e \<and> int (fst (snd e)) \<le> depth c"
    by (auto simp: loop_inv_def)
  from post have ids': "node_ids (graph t') = [0..<Suc (current_index t')]"
    and le': "?m \<le> current_index t'"
    and fr': "frame_below ?m s5 t'"
    and un': "untouched_from (Suc (current_index t')) t'"
    and ae': "attrs_empty t'"
    and nm: "nodes t' ?m = Some (Vec x)"
    by (simp_all add: fit_post_def)
  from post obtain new' where new': "fit_calls t' = fit_calls s5 @ (?m, Suc cd, k') # new'"
    "map fst new' = [Suc ?m..<Suc (current_index t')]"
    "call_ok c t' (?m, Suc cd, k')"
    "\<forall>e \<in> set new'. call_ok c t' e \<and> int (fst (snd e)) \<le> depth c"
    by (auto simp: fit_post_def)
  from kids have notin: "?m \<notin> set (adj (graph t) node)"
    by (auto simp: kids_ok_def)
  have adj5: "adj (graph s5) = (adj (graph t))(node := adj (graph t) node @ [?m])"
    using notin by (simp add: f adj_add_edge)
  have below: "\<And>u. u < ?m \<Longrightarrow>
      adj (graph t') u = (if u = node then adj (graph t) node @ [?m] else adj (graph t) u) \<and>
      tree t' u = (if u = node then Some (adj (graph t) node @ [?m]) else tree t u) \<and>
      nodes t' u = nodes t u"
    using fr' by (simp add: frame_below_def adj5 f(3,4))
  have adj': "adj (graph t') node = adj (graph t) node @ [?m]"
    using below [of node] le by simp
  have tree': "tree t' node = Some (adj (graph t') node)"
    using below [of node] le by (simp add: adj')
  have frame: "frame_below node s t'"
    using fr below le by (simp add: frame_below_def)
  have root: "nodes t' node = Some r"
    using below [of node] le rt by simp
  have kids': "kids_ok t' node"
    using kids le le' nm below unfolding kids_ok_def adj' by auto
  have old: "call_ok c t' e" if e: "e \<in> set new" for e
  proof -
    from e new(2) have "fst e \<in> set [Suc node..<?m]" by (metis image_eqI set_map)
    then have n: "node < fst e" "fst e < ?m" by auto
    from e new(3) have ok: "call_ok c t e" by simp
    then have "\<forall>v \<in> set (adj (graph t) (fst e)). v < ?m"
      by (cases e) (auto simp: call_ok_def kids_ok_def)
    with n below show ?thesis
      by (intro call_ok_cong [OF ok]) (use le' in auto)
  qed
  have dep: "int (Suc cd) \<le> depth c"
    using nl by (simp add: leaf_call_def)
  have calls: "fit_calls t' = fit_calls s @ (node, cd, k) # (new @ (?m, Suc cd, k') # new')"
    by (simp add: new'(1) f new(1))
  have fsts: "map fst (new @ (?m, Suc cd, k') # new') = [Suc node..<Suc (current_index t')]"
  proof -
    have "map fst (new @ (?m, Suc cd, k') # new') = [Suc node..<?m] @ ?m # [Suc ?m..<Suc (current_index t')]"
      by (simp only: map_append list.map fst_conv new(2) new'(2))
    also have "\<dots> = [Suc node..<Suc (current_index t')]"
      by (rule upt_snoc_join) (use le le' in auto)
    finally show ?thesis .
  qed
  have all: "\<forall>e \<in> set (new @ (?m, Suc cd, k') # new'). call_ok c t' e \<and> int (fst (snd e)) \<le> depth c"
    using old new(3) new'(3,4) dep by auto
  have le'': "node \<le> current_index t'" using le le' by simp
  have stored: "nodes t' u \<noteq> None" if u: "node \<le> u" "u \<le> current_index t'" for u
  proof (cases "u < ?m")
    case True
    with L u(1) have "nodes t u \<noteq> None" by (simp add: loop_inv_def)
    with below [OF True] show ?thesis by simp
  next
    case False
    with post u(2) show ?thesis by (simp add: fit_post_def)
  qed
  show ?thesis
    unfolding loop_inv_def
    using ids' le'' frame un' ae' root stored tree' kids' calls fsts all len
    by (simp add: adj')
qed


lemma fit_node_post:
  "fit_node c km s features node r cd = Inr s' \<Longrightarrow> fit_pre s node \<Longrightarrow>
   fit_post c s node cd (length features) r s'"
proof (induction c km s features node r cd arbitrary: s' rule: fit_node.induct)
  case (1 c km s features node r cd)
  let ?s1 = "s\<lparr>nodes := (nodes s)(node \<mapsto> r), graph := add_node node (graph s),
                fit_calls := fit_calls s @ [(node, cd, length features)]\<rparr>"
  let ?k = "length features"
  show ?case
  proof (cases "leaf_call c cd ?k")
    case True
    with "1.prems"(1) have "s' = ?s1"
      by (simp add: fit_node.simps [of c km s features node r cd] leaf_call_def)
    with "1.prems"(2) True show ?thesis
      by (intro fit_post_leaf) simp_all
  next
    case False
    then have nl: "\<not> (depth c \<le> int cd \<or> int ?k < n_branches c)"
      by (simp add: leaf_call_def)
    let ?body = "\<lambda>model children i s2.
       let s3 = s2\<lparr>current_index := current_index s2 + 1\<rparr>
       in case tree s3 node of
            None \<Rightarrow> Inl KeyError
          | Some kids \<Rightarrow>
             let s4 = s3\<lparr>tree := (tree s3)(node \<mapsto> kids @ [current_index s3])\<rparr>;
                 s5 = s4\<lparr>graph := add_edge node (current_index s4) (graph s4)\<rparr>
             in if i < length (cluster_centers model)
                then fit_node c km s5 (children ! i) (current_index s5)
                       (Vec (cluster_centers model ! i)) (cd + 1)
                else Inl IndexError"
    from "1.prems"(1) nl obtain model children where
      km: "km node (n_branches c) features = Inr model" and
      grp: "group_features (nat (n_branches c)) (labels model) features = Inr children" and
      fold: "fold_err (?body model children) [0..<nat (n_branches c)]
               (?s1\<lparr>tree := (tree ?s1)(node \<mapsto> [])\<rparr>) = Inr s'"
      by (simp add: fit_node.simps [of c km s features node r cd] Let_def split: sum.splits)
    have init: "loop_inv c s node cd ?k r 0 (?s1\<lparr>tree := (tree ?s1)(node \<mapsto> [])\<rparr>)"
      using "1.prems"(2) by (intro loop_inv_init) simp_all
    have step: "loop_inv c s node cd ?k r (Suc j) t'"
      if j: "j < nat (n_branches c)" and L: "loop_inv c s node cd ?k r j t"
        and b: "?body model children j t = Inr t'" for j t t'
    proof -
      let ?m = "Suc (current_index t)"
      let ?kids = "adj (graph t) node"
      let ?s5 = "t\<lparr>current_index := ?m, tree := (tree t)(node \<mapsto> ?kids @ [?m]),
                     graph := add_edge node ?m (graph t)\<rparr>"
      from L have tr: "tree t node = Some ?kids" by (simp add: loop_inv_def)
      from b tr have lt: "j < length (cluster_centers model)"
        and call: "fit_node c km ?s5 (children ! j) ?m (Vec (cluster_centers model ! j)) (cd + 1) = Inr t'"
        by (simp_all add: Let_def split: if_splits)
      have pre: "fit_pre ?s5 ?m"
        using L by (rule child_pre) simp_all
      have post: "fit_post c ?s5 ?m (Suc cd) (length (children ! j)) (Vec (cluster_centers model ! j)) t'"
        using "1.IH" [OF refl nl km grp _ refl _ refl refl lt, where u = t and s' = t'] j tr call pre
        by simp
      show ?thesis
        by (rule loop_step [OF L False _ _ _ _ _ post]) simp_all
    qed
    have "loop_inv c s node cd ?k r (nat (n_branches c)) s'"
      using fold init step by (rule fold_err_upt_invariant)
    then show ?thesis using False by (rule loop_inv_final)
  qed
qed


definition tree_ok :: "'id cbir \<Rightarrow> bool" where
  "tree_ok s \<longleftrightarrow> node_ids (graph s) = [0..<Suc (current_index s)] \<and> (\<forall>n. kids_ok s n)"

lemma fit_pre_init: "fit_pre init_cbir 0"
  by (simp add: fit_pre_def init_cbir_def empty_graph_def node_ids_def untouched_from_def
      attrs_empty_def)

lemma fit_post_init:
  assumes "fit c km init_cbir features 0 root_val 0 = Inr s"
  shows "\<exists>k r. fit_post c init_cbir 0 0 k r s"
  using assms fit_pre_init unfolding fit_def Let_def
  by (blast dest: fit_node_post)

lemma fit_post_calls:
  assumes "fit_post c init_cbir 0 0 k r s"
  shows "map fst (fit_calls s) = node_ids (graph s)"
proof -
  from assms obtain new where "fit_calls s = (0, 0, k) # new"
    "map fst new = [Suc 0..<Suc (current_index s)]"
    by (auto simp: fit_post_def init_cbir_def)
  moreover from assms have "node_ids (graph s) = [0..<Suc (current_index s)]"
    by (simp add: fit_post_def)
  ultimately show ?thesis by (simp add: upt_conv_Cons)
qed

lemma fit_post_call_ok:
  assumes "fit_post c init_cbir 0 0 k r s" and "e \<in> set (fit_calls s)"
  shows "call_ok c s e" and "0 \<le> depth c \<Longrightarrow> int (fst (snd e)) \<le> depth c"
  using assms by (auto simp: fit_post_def init_cbir_def)

lemma fit_post_tree_ok:
  assumes post: "fit_post c init_cbir 0 0 k r s"
  shows "tree_ok s"
proof -
  have ids: "node_ids (graph s) = [0..<Suc (current_index s)]"
    using post by (simp add: fit_post_def)
  have "kids_ok s n" for n
  proof (cases "n \<le> current_index s")
    case True
    then have "n \<in> set (map fst (fit_calls s))"
      by (simp add: fit_post_calls [OF post] ids del: upt_Suc)
    then obtain e where "e \<in> set (fit_calls s)" "fst e = n" by auto
    with fit_post_call_ok(1) [OF post] show ?thesis
      by (cases e) (auto simp: call_ok_def)
  next
    case False
    with post have "adj (graph s) n = []"
      by (simp add: fit_post_def untouched_from_def)
    then show ?thesis by (simp add: kids_ok_def)
  qed
  with ids show ?thesis by (simp add: tree_ok_def)
qed

section \<open>A small fitted object\<close>

text \<open>
  Two images, the first with the descriptor \<open>[1]\<close> and the second with the descriptors
  \<open>[9]\<close> and \<open>[11]\<close>; branching factor 2 and depth 2.  The clustering puts \<open>[1]\<close> alone
  into one cluster and \<open>[9]\<close>, \<open>[11]\<close> into the other, with the cluster means as centres,
  so that node 1 receives fewer descriptors than branches and stays a leaf at depth 1,
  and node 2 is split once more.
\<close>

definition example_config :: "(string, string) config" where
  "example_config =
     \<lparr>n_branches = 2, depth = 2, all_images = [''a'', ''b''],
      extract_image_features = (\<lambda>i. if i = ''a'' then [[1]] else [[9], [11]]),
      get_image_id = (\<lambda>i. i)\<rparr>"

definition example_clustering :: clustering where
  "example_clustering node k fs =
     Inr (if node = 0 then \<lparr>cluster_centers = [[1], [10]], labels = [0, 1, 1]\<rparr>
          else \<lparr>cluster_centers = [[9], [11]], labels = [0, 1]\<rparr>)"

definition example_graph :: "string digraph" where
  "example_graph =
     \<lparr>node_attrs = [(0, []), (1, []), (2, []), (3, []), (4, [])],
      adj = (\<lambda>n. if n = 0 then [1, 2] else if n = 2 then [3, 4] else [])\<rparr>"

definition example_fitted :: "string cbir" where
  "example_fitted =
     \<lparr>tree = [0 \<mapsto> [1, 2], 2 \<mapsto> [3, 4]],
      nodes = [0 \<mapsto> Scalar (Fin 7), 1 \<mapsto> Vec [1], 2 \<mapsto> Vec [10],
               3 \<mapsto> Vec [9], 4 \<mapsto> Vec [11]],
      current_index = 4, graph = example_graph,
      fit_calls = [(0, 0, 3), (1, 1, 1), (2, 1, 2), (3, 2, 1), (4, 2, 1)]\<rparr>"

lemma example_fit:
  "fit example_config example_clustering init_cbir None 0 None 0 = Inr example_fitted"
  by (simp add: fit_def example_config_def extract_features_def np_mean_def fit_node.simps
      example_clustering_def example_fitted_def example_graph_def init_cbir_def empty_graph_def
      add_node_def add_edge_def has_node_def node_ids_def group_features_def upt_rec Let_def
      eval_nat_numeral fun_eq_iff)

section \<open>Node identifiers\<close>

text \<open>
  Claim C6.  In the object that \<open>fit\<close> returns, started on the freshly constructed
  object at node 0, the nodes of the graph listed in the order of their insertion are
  \<open>0, 1, \<dots>, total - 1\<close>: the identifiers are the contiguous range below the number of
  nodes, none occurs twice, and the root is 0.  The counter ends at the last identifier
  given out, and the \<open>nodes\<close> dictionary has a centroid for exactly these identifiers.
  The invocations of \<open>fit\<close>, in the order in which they were entered, are for the nodes
  \<open>0, 1, 2, \<dots>\<close>, so every node was given the next unused identifier and entered
  before any later node was created; the children of a node have larger identifiers
  than the node.
\<close>

theorem fit_ids_contiguous:
  assumes "fit c km init_cbir features 0 root_val 0 = Inr s"
  shows "node_ids (graph s) = [0..<length (node_ids (graph s))] \<and>
         length (node_ids (graph s)) = Suc (current_index s) \<and>
         dom (nodes s) = set (node_ids (graph s)) \<and>
         map fst (fit_calls s) = node_ids (graph s) \<and>
         (\<forall>u v. v \<in> set (adj (graph s) u) \<longrightarrow> u < v \<and> v \<le> current_index s)"
proof -
  from fit_post_init [OF assms] obtain k r where post: "fit_post c init_cbir 0 0 k r s"
    by blast
  have ok: "tree_ok s" using post by (rule fit_post_tree_ok)
  then have ids: "node_ids (graph s) = [0..<Suc (current_index s)]"
    by (simp add: tree_ok_def)
  then have len: "length (node_ids (graph s)) = Suc (current_index s)" by simp
  have "nodes s u \<noteq> None \<longleftrightarrow> u \<le> current_index s" for u
    using post by (cases "u \<le> current_index s") (auto simp: fit_post_def untouched_from_def)
  then have stored: "dom (nodes s) = set (node_ids (graph s))"
    unfolding ids by (auto simp: dom_def simp del: upt_Suc)
  have "v \<in> set (adj (graph s) u) \<Longrightarrow> u < v \<and> v \<le> current_index s" for u v
    using ok by (auto simp: tree_ok_def kids_ok_def)
  with ids len stored fit_post_calls [OF post] show ?thesis by simp
qed

theorem fit_ids_contiguous_witness:
  "fit example_config example_clustering init_cbir None 0 None 0 = Inr example_fitted \<and>
   node_ids (graph example_fitted) = [0, 1, 2, 3, 4] \<and>
   current_index example_fitted = 4 \<and>
   dom (nodes example_fitted) = {0, 1, 2, 3, 4} \<and>
   map fst (fit_calls example_fitted) = [0, 1, 2, 3, 4] \<and>
   adj (graph example_fitted) 0 = [1, 2] \<and> adj (graph example_fitted) 2 = [3, 4]"
  using fit_ids_contiguous [OF example_fit] example_fit
  by (simp add: example_fitted_def example_graph_def node_ids_def)

section \<open>Leaves and internal nodes\<close>

text \<open>
  Claim C5.  For a branching factor of at least one and a non-negative depth (the claim
  asks for at least two and at least one), and any features: every node of the fitted
  tree was entered by exactly one invocation of \<open>fit\<close>, at a depth \<open>d\<close> that does not
  exceed the configured depth and with \<open>k\<close> feature vectors; the node has no children if
  and only if \<open>d\<close> equals the configured depth or \<open>k\<close> is smaller than the branching
  factor; and a node with children has exactly \<open>n_branches\<close> of them, all different.
\<close>

theorem fit_leaf_iff:
  assumes "fit c km init_cbir features 0 root_val 0 = Inr s"
    and "1 \<le> n_branches c" and "0 \<le> depth c"
  shows "map fst (fit_calls s) = node_ids (graph s) \<and> distinct (node_ids (graph s)) \<and>
         (\<forall>(n, d, k) \<in> set (fit_calls s).
            int d \<le> depth c \<and>
            (out_degree (graph s) n = Inr 0 \<longleftrightarrow> int d = depth c \<or> int k < n_branches c) \<and>
            (out_degree (graph s) n = Inr 0 \<or>
             out_degree (graph s) n = Inr (nat (n_branches c)) \<and> distinct (adj (graph s) n) \<and>
             tree s n = Some (adj (graph s) n)))"
proof -
  from fit_post_init [OF assms(1)] obtain k0 r where post: "fit_post c init_cbir 0 0 k0 r s"
    by blast
  have calls: "map fst (fit_calls s) = node_ids (graph s)"
    using post by (rule fit_post_calls)
  have ids: "node_ids (graph s) = [0..<Suc (current_index s)]"
    using post by (simp add: fit_post_def)
  have each: "int d \<le> depth c \<and>
      (out_degree (graph s) n = Inr 0 \<longleftrightarrow> int d = depth c \<or> int k < n_branches c) \<and>
      (out_degree (graph s) n = Inr 0 \<or>
       out_degree (graph s) n = Inr (nat (n_branches c)) \<and> distinct (adj (graph s) n) \<and>
       tree s n = Some (adj (graph s) n))"
    if e: "(n, d, k) \<in> set (fit_calls s)" for n d k
  proof -
    from e have "n \<in> set (map fst (fit_calls s))" by force
    then have hn: "has_node (graph s) n" by (simp add: calls has_node_def)
    have d: "int d \<le> depth c"
      using fit_post_call_ok(2) [OF post e assms(3)] by simp
    have ok: "call_ok c s (n, d, k)" using post e by (rule fit_post_call_ok(1))
    show ?thesis
    proof (cases "leaf_call c d k")
      case True
      with ok hn d show ?thesis
        by (auto simp: call_ok_def out_degree_def leaf_call_def)
    next
      case False
      with ok hn d assms(2) show ?thesis
        by (auto simp: call_ok_def out_degree_def leaf_call_def kids_ok_def)
    qed
  qed
  have "distinct (node_ids (graph s))" by (simp add: ids del: upt_Suc)
  with calls each show ?thesis by blast
qed

theorem fit_leaf_iff_witness:
  "fit example_config example_clustering init_cbir None 0 None 0 = Inr example_fitted \<and>
   (1::int) \<le> n_branches example_config \<and> (0::int) \<le> depth example_config \<and>
   fit_calls example_fitted = [(0, 0, 3), (1, 1, 1), (2, 1, 2), (3, 2, 1), (4, 2, 1)] \<and>
   out_degree (graph example_fitted) 0 = Inr 2 \<and>
   out_degree (graph example_fitted) 1 = Inr 0 \<and>
   out_degree (graph example_fitted) 2 = Inr 2 \<and>
   out_degree (graph example_fitted) 3 = Inr 0 \<and>
   out_degree (graph example_fitted) 4 = Inr 0"
proof -
  have nb: "1 \<le> n_branches example_config" and dp: "0 \<le> depth example_config"
    by (simp_all add: example_config_def)
  show ?thesis
    using fit_leaf_iff [OF example_fit nb dp] example_fit nb dp
    by (simp add: example_fitted_def example_graph_def out_degree_def has_node_def node_ids_def)
qed

section \<open>What the operations after fit leave alone\<close>

text \<open>
  Everything of the object except the attribute dictionaries of the nodes: the list of
  node identifiers, the edges, the \<open>tree\<close> and \<open>nodes\<close> dictionaries and the counter.
\<close>

lemma fold_err_invariant:
  assumes "fold_err f xs s = Inr s'" and "P s"
    and "\<And>x t t'. x \<in> set xs \<Longrightarrow> P t \<Longrightarrow> f x t = Inr t' \<Longrightarrow> P t'"
  shows "P s'"
  using assms
proof (induction xs arbitrary: s)
  case Nil
  then show ?case by simp
next
  case (Cons x xs)
  from Cons.prems(1) obtain t where t: "f x s = Inr t" and rest: "fold_err f xs t = Inr s'"
    by (auto split: sum.splits)
  have "P t" using Cons.prems(3) [of x s t] Cons.prems(2) t by simp
  then show ?case using rest Cons.prems(3) by (intro Cons.IH [of t]) auto
qed

lemma fold_res_invariant:
  assumes "fold_res f xs s = Some (Inr s')" and "P s"
    and "\<And>x t t'. x \<in> set xs \<Longrightarrow> P t \<Longrightarrow> f x t = Some (Inr t') \<Longrightarrow> P t'"
  shows "P s'"
  using assms
proof (induction xs arbitrary: s)
  case Nil
  then show ?case by simp
next
  case (Cons x xs)
  from Cons.prems(1) obtain t where t: "f x s = Some (Inr t)"
    and rest: "fold_res f xs t = Some (Inr s')"
    by (auto split: option.splits sum.splits)
  have "P t" using Cons.prems(3) [of x s t] Cons.prems(2) t by simp
  then show ?case using rest Cons.prems(3) by (intro Cons.IH [of t]) auto
qed

definition same_topology :: "'id cbir \<Rightarrow> 'id cbir \<Rightarrow> bool" where
  "same_topology s s' \<longleftrightarrow>
     node_ids (graph s') = node_ids (graph s) \<and> adj (graph s') = adj (graph s) \<and>
     tree s' = tree s \<and> nodes s' = nodes s \<and> current_index s' = current_index s \<and>
     fit_calls s' = fit_calls s"

lemma same_topology_refl: "same_topology s s"
  by (simp add: same_topology_def)

lemma same_topology_trans: "same_topology s t \<Longrightarrow> same_topology t u \<Longrightarrow> same_topology s u"
  by (simp add: same_topology_def)

lemma node_ids_set_attrs:
  "map_of (node_attrs g) n = Some a \<Longrightarrow> node_ids (set_attrs n a' g) = node_ids g"
  by (auto simp: set_attrs_def node_ids_def update_keys dest: map_of_SomeD intro: rev_image_eqI)

lemma adj_set_attrs: "adj (set_attrs n a g) = adj g"
  by (simp add: set_attrs_def)

lemma record_visit_topology:
  assumes "record_visit image_id n s = Inr s'"
  shows "same_topology s s'"
  using assms
  by (auto simp: record_visit_def same_topology_def node_ids_set_attrs adj_set_attrs
      split: option.splits)

lemma propagate_topology:
  assumes "propagate c image_path s = Some (Inr s')"
  shows "same_topology s s'"
proof -
  let ?step = "\<lambda>feature s1.
       case propagate_feature s1 feature 0 of
         None \<Rightarrow> None
       | Some (Inl e) \<Rightarrow> Some (Inl e)
       | Some (Inr path) \<Rightarrow>
           Some (fold_err (record_visit (get_image_id c image_path)) path s1)"
  from assms have run: "fold_res ?step (extract_image_features c image_path) s = Some (Inr s')"
    by (simp add: propagate_def Let_def)
  show ?thesis
  proof (rule fold_res_invariant [OF run, where P = "same_topology s"])
    show "same_topology s s" by (rule same_topology_refl)
  next
    fix x t t'
    assume t: "same_topology s t" and step: "?step x t = Some (Inr t')"
    from step obtain path where
      visits: "fold_err (record_visit (get_image_id c image_path)) path t = Inr t'"
      by (auto split: option.splits sum.splits)
    show "same_topology s t'"
      by (rule fold_err_invariant [where P = "same_topology s", OF visits t])
        (blast intro: same_topology_trans record_visit_topology)
  qed
qed

lemma set_weights_topology: "same_topology s (set_weights N s)"
  by (simp add: set_weights_def same_topology_def node_ids_def case_prod_unfold Let_def comp_def)

lemma index_topology:
  assumes "index c parallel s = Some (Inr s')"
  shows "same_topology s s'"
proof -
  from assms obtain s1 where
    s1: "(if parallel then Some (Inr s) else fold_res (propagate c) (all_images c) s) = Some (Inr s1)"
    and s': "s' = set_weights (dataset_len c) s1"
    by (auto simp: index_def split: option.splits sum.splits)
  have "same_topology s s1"
  proof (cases parallel)
    case True
    with s1 show ?thesis by (simp add: same_topology_refl)
  next
    case False
    with s1 have run: "fold_res (propagate c) (all_images c) s = Some (Inr s1)" by simp
    show ?thesis
      by (rule fold_res_invariant [OF run, where P = "same_topology s"])
        (blast intro: same_topology_refl same_topology_trans propagate_topology)+
  qed
  with s' show ?thesis by (blast intro: same_topology_trans set_weights_topology)
qed

lemma retrieve_topology:
  assumes "retrieve c query s = Some (Inr (s', ranked))"
  shows "same_topology s s'"
  using assms
  by (auto simp: retrieve_def split: option.splits sum.splits intro: propagate_topology)

text \<open>
  The example object after \<open>propagate\<close> of the first image, after a sequential \<open>index\<close>,
  after a \<open>retrieve\<close> with the first image as the query on the indexed object, and
  after a second sequential \<open>index\<close> on the indexed object.
\<close>

definition with_attrs :: "(nat \<times> 'id attrs) list \<Rightarrow> 'id cbir \<Rightarrow> 'id cbir" where
  "with_attrs al s = s\<lparr>graph := (graph s)\<lparr>node_attrs := al\<rparr>\<rparr>"

definition example_visited :: "string cbir" where
  "example_visited = with_attrs
     [(0, [(Img ''a'', Fin 1)]), (1, [(Img ''a'', Fin 1)]), (2, [(Img ''a'', Fin 1)]),
      (3, []), (4, [])] example_fitted"

definition example_indexed :: "string cbir" where
  "example_indexed = with_attrs
     [(0, [(Img ''a'', Fin 1), (Img ''b'', Fin 2), (W, Fin 0)]),
      (1, [(Img ''a'', Fin 1), (Img ''b'', Fin 2), (W, Fin 0)]),
      (2, [(Img ''a'', Fin 1), (Img ''b'', Fin 2), (W, Fin 0)]),
      (3, [(Img ''b'', Fin 2), (W, Fin (ln 2))]),
      (4, [(Img ''b'', Fin 2), (W, Fin (ln 2))])] example_fitted"

definition example_queried :: "string cbir" where
  "example_queried = with_attrs
     [(0, [(Img ''a'', Fin 2), (Img ''b'', Fin 2), (W, Fin 0)]),
      (1, [(Img ''a'', Fin 2), (Img ''b'', Fin 2), (W, Fin 0)]),
      (2, [(Img ''a'', Fin 2), (Img ''b'', Fin 2), (W, Fin 0)]),
      (3, [(Img ''b'', Fin 2), (W, Fin (ln 2))]),
      (4, [(Img ''b'', Fin 2), (W, Fin (ln 2))])] example_fitted"

definition example_reindexed :: "string cbir" where
  "example_reindexed = with_attrs
     [(0, [(Img ''a'', Fin 2), (Img ''b'', Fin 4), (W, Fin (ln (2 / 3)))]),
      (1, [(Img ''a'', Fin 2), (Img ''b'', Fin 4), (W, Fin (ln (2 / 3)))]),
      (2, [(Img ''a'', Fin 2), (Img ''b'', Fin 4), (W, Fin (ln (2 / 3)))]),
      (3, [(Img ''b'', Fin 4), (W, Fin 0)]),
      (4, [(Img ''b'', Fin 4), (W, Fin 0)])] example_fitted"

lemmas example_defs = example_config_def example_fitted_def example_graph_def with_attrs_def
lemmas graph_defs = out_degree_def successors_def has_node_def node_ids_def set_attrs_def
lemmas route_defs = propagate_feature_def descend.simps distance_def centroid_minus_def
  broadcast_sub_def frobenius_norm_def np_sum_def

lemma example_propagate:
  "propagate example_config ''a'' example_fitted = Some (Inr example_visited)"
  by (simp add: propagate_def record_visit_def example_visited_def example_defs graph_defs route_defs)

lemma example_index:
  "index example_config False example_fitted = Some (Inr example_indexed)"
  by (simp add: index_def set_weights_def dataset_len_def propagate_def record_visit_def
      example_indexed_def example_defs graph_defs route_defs)

lemma example_retrieve:
  "retrieve example_config ''a'' example_indexed =
     Some (Inr (example_queried, [(''a'', Fin (4 / 3)), (''b'', Fin (8 / 5))]))"
  by (simp add: retrieve_def score_def encode_def visit_count_def norm_l1_def np_sub_def
      sorted_by_score_def propagate_def record_visit_def
      example_indexed_def example_queried_def example_defs graph_defs route_defs)

lemma example_reindex:
  "index example_config False example_indexed = Some (Inr example_reindexed)"
  by (simp add: index_def set_weights_def dataset_len_def propagate_def record_visit_def
      example_indexed_def example_reindexed_def example_defs graph_defs route_defs)

text \<open>
  Claim C9.  A completed \<open>propagate\<close>, \<open>index\<close> or \<open>retrieve\<close> returns an object with the
  same nodes, in the same order, the same edges, the same \<open>tree\<close> and \<open>nodes\<close>
  dictionaries and the same counter as the object it was called on; what may differ are
  the attribute dictionaries of the nodes, which hold the visit counts and the weights.
  This holds from any state, fitted or not.  \<open>encode\<close> and \<open>score\<close> return a vector and a
  number and no object: they are functions of the state.
\<close>

theorem topology_unchanged:
  "(propagate c image_path s = Some (Inr s') \<longrightarrow> same_topology s s') \<and>
   (index c parallel s = Some (Inr s') \<longrightarrow> same_topology s s') \<and>
   (retrieve c query s = Some (Inr (s', ranked)) \<longrightarrow> same_topology s s')"
  by (blast intro: propagate_topology index_topology retrieve_topology)

theorem topology_unchanged_witness:
  "propagate example_config ''a'' example_fitted = Some (Inr example_visited) \<and>
   same_topology example_fitted example_visited \<and>
   index example_config False example_fitted = Some (Inr example_indexed) \<and>
   same_topology example_fitted example_indexed \<and>
   retrieve example_config ''a'' example_indexed =
     Some (Inr (example_queried, [(''a'', Fin (4 / 3)), (''b'', Fin (8 / 5))])) \<and>
   same_topology example_indexed example_queried"
  using topology_unchanged [of example_config "''a''" example_fitted example_visited]
    topology_unchanged [of example_config _ example_fitted example_indexed False]
    topology_unchanged [of example_config _ example_indexed example_queried _ "''a''"
      "[(''a'', Fin (4 / 3)), (''b'', Fin (8 / 5))]"]
    example_propagate example_index example_retrieve
  by simp

section \<open>The nearest child\<close>

text \<open>
  The spec's words for the metric, "Euclidean norm between the feature vector and the
  child centroid", written out for two vectors of one length: the root of the sum of the
  squared differences of their entries.
\<close>

definition euclidean_distance :: "real list \<Rightarrow> real list \<Rightarrow> real" where
  "euclidean_distance a b = sqrt (\<Sum>i<length b. (a ! i - b ! i) ^ 2)"

lemma foldl_np_add_Fin: "foldl np_add (Fin a) (map Fin xs) = Fin (a + sum_list xs)"
  by (induction xs arbitrary: a) (simp_all add: add.assoc)

lemma np_sum_Fin: "np_sum (map Fin xs) = Fin (sum_list xs)"
  by (simp add: np_sum_def foldl_np_add_Fin)

lemma sum_list_squares:
  "length a = length b \<Longrightarrow>
   sum_list (map (\<lambda>x. \<bar>x\<bar> * \<bar>x\<bar>) (map2 (-) a b)) = (\<Sum>i<length b. (a ! i - b ! i :: real) ^ 2)"
  by (simp add: sum_list_sum_nth atLeast0LessThan power2_eq_square)

lemma frobenius_norm_Fin:
  "frobenius_norm [map Fin d] = Fin (sqrt (sum_list (map (\<lambda>x. \<bar>x\<bar> * \<bar>x\<bar>) d)))"
proof -
  have sq: "map (\<lambda>x. np_mul (np_abs x) (np_abs x)) (map Fin d) = map Fin (map (\<lambda>x. \<bar>x\<bar> * \<bar>x\<bar>) d)"
    by simp
  have nonneg: "0 \<le> sum_list (map (\<lambda>x. \<bar>x\<bar> * \<bar>x\<bar>) d)"
    by (rule sum_list_nonneg) auto
  show ?thesis
    unfolding frobenius_norm_def using nonneg
    by (simp only: concat.simps append_Nil2 sq np_sum_Fin np_sqrt.simps) simp
qed

lemma distance_euclidean:
  assumes "length c = length feature"
  shows "distance (Vec c) feature = Inr (Fin (euclidean_distance c feature))"
proof -
  have "distance (Vec c) feature = Inr (frobenius_norm [map Fin (map2 (-) c feature)])"
    using assms by (simp add: distance_def centroid_minus_def broadcast_sub_def)
  then show ?thesis
    by (simp only: frobenius_norm_Fin sum_list_squares [OF assms] euclidean_distance_def)
qed

lemma scan_children_fin:
  assumes "\<forall>child \<in> set cs. ns child = Some (Vec (cv child)) \<and> length (cv child) = length f"
  shows "\<exists>m' node'. scan_children ns f cs (Fin m, node, path) = Inr (Fin m', node', path @ cs) \<and>
     (m' = m \<and> node' = node \<and> (\<forall>j<length cs. m \<le> euclidean_distance (cv (cs ! j)) f) \<or>
      (\<exists>i<length cs. node' = cs ! i \<and> m' = euclidean_distance (cv (cs ! i)) f \<and> m' < m \<and>
         (\<forall>j<length cs. m' \<le> euclidean_distance (cv (cs ! j)) f) \<and>
         (\<forall>j<i. m' < euclidean_distance (cv (cs ! j)) f)))"
  using assms
proof (induction cs arbitrary: m node path)
  case Nil
  then show ?case by simp
next
  case (Cons child rest)
  let ?d = "\<lambda>v. euclidean_distance (cv v) f"
  from Cons.prems have c: "ns child = Some (Vec (cv child))" "length (cv child) = length f"
    and rest: "\<forall>x \<in> set rest. ns x = Some (Vec (cv x)) \<and> length (cv x) = length f"
    by simp_all
  have dist: "distance (Vec (cv child)) f = Inr (Fin (?d child))"
    using c(2) by (rule distance_euclidean)
  show ?case
  proof (cases "?d child < m")
    case True
    from Cons.IH [OF rest, of "?d child" child "path @ [child]"]
    obtain m' node' where
      run: "scan_children ns f rest (Fin (?d child), child, path @ [child]) = Inr (Fin m', node', path @ child # rest)"
      and alt: "m' = ?d child \<and> node' = child \<and> (\<forall>j<length rest. ?d child \<le> ?d (rest ! j)) \<or>
        (\<exists>i<length rest. node' = rest ! i \<and> m' = ?d (rest ! i) \<and> m' < ?d child \<and>
           (\<forall>j<length rest. m' \<le> ?d (rest ! j)) \<and> (\<forall>j<i. m' < ?d (rest ! j)))"
      by auto
    have whole: "scan_children ns f (child # rest) (Fin m, node, path) = Inr (Fin m', node', path @ child # rest)"
      using True c(1) dist run by simp
    from alt have "\<exists>i<length (child # rest). node' = (child # rest) ! i \<and>
        m' = ?d ((child # rest) ! i) \<and> m' < m \<and>
        (\<forall>j<length (child # rest). m' \<le> ?d ((child # rest) ! j)) \<and>
        (\<forall>j<i. m' < ?d ((child # rest) ! j))"
    proof
      assume a: "m' = ?d child \<and> node' = child \<and> (\<forall>j<length rest. ?d child \<le> ?d (rest ! j))"
      with True show ?thesis
        by (intro exI [of _ 0]) (simp add: All_less_Suc2)
    next
      assume "\<exists>i<length rest. node' = rest ! i \<and> m' = ?d (rest ! i) \<and> m' < ?d child \<and>
           (\<forall>j<length rest. m' \<le> ?d (rest ! j)) \<and> (\<forall>j<i. m' < ?d (rest ! j))"
      then obtain i where i: "i < length rest" "node' = rest ! i" "m' = ?d (rest ! i)"
        "m' < ?d child" "\<forall>j<length rest. m' \<le> ?d (rest ! j)" "\<forall>j<i. m' < ?d (rest ! j)"
        by blast
      with True show ?thesis
        by (intro exI [of _ "Suc i"]) (simp add: All_less_Suc2)
    qed
    with whole show ?thesis by blast
  next
    case False
    from Cons.IH [OF rest, of m node "path @ [child]"]
    obtain m' node' where
      run: "scan_children ns f rest (Fin m, node, path @ [child]) = Inr (Fin m', node', path @ child # rest)"
      and alt: "m' = m \<and> node' = node \<and> (\<forall>j<length rest. m \<le> ?d (rest ! j)) \<or>
        (\<exists>i<length rest. node' = rest ! i \<and> m' = ?d (rest ! i) \<and> m' < m \<and>
           (\<forall>j<length rest. m' \<le> ?d (rest ! j)) \<and> (\<forall>j<i. m' < ?d (rest ! j)))"
      by auto
    have whole: "scan_children ns f (child # rest) (Fin m, node, path) = Inr (Fin m', node', path @ child # rest)"
      using False c(1) dist run by simp
    from alt have "m' = m \<and> node' = node \<and> (\<forall>j<length (child # rest). m \<le> ?d ((child # rest) ! j)) \<or>
        (\<exists>i<length (child # rest). node' = (child # rest) ! i \<and>
        m' = ?d ((child # rest) ! i) \<and> m' < m \<and>
        (\<forall>j<length (child # rest). m' \<le> ?d ((child # rest) ! j)) \<and>
        (\<forall>j<i. m' < ?d ((child # rest) ! j)))"
    proof
      assume "m' = m \<and> node' = node \<and> (\<forall>j<length rest. m \<le> ?d (rest ! j))"
      with False show ?thesis by (simp add: All_less_Suc2)
    next
      assume "\<exists>i<length rest. node' = rest ! i \<and> m' = ?d (rest ! i) \<and> m' < m \<and>
           (\<forall>j<length rest. m' \<le> ?d (rest ! j)) \<and> (\<forall>j<i. m' < ?d (rest ! j))"
      then obtain i where i: "i < length rest" "node' = rest ! i" "m' = ?d (rest ! i)"
        "m' < m" "\<forall>j<length rest. m' \<le> ?d (rest ! j)" "\<forall>j<i. m' < ?d (rest ! j)"
        by blast
      with False have "\<exists>i<length (child # rest). node' = (child # rest) ! i \<and>
        m' = ?d ((child # rest) ! i) \<and> m' < m \<and>
        (\<forall>j<length (child # rest). m' \<le> ?d ((child # rest) ! j)) \<and>
        (\<forall>j<i. m' < ?d ((child # rest) ! j))"
        by (intro exI [of _ "Suc i"]) (simp add: All_less_Suc2)
      then show ?thesis by blast
    qed
    with whole show ?thesis by blast
  qed
qed

lemma scan_children_first_min:
  assumes "\<forall>child \<in> set cs. ns child = Some (Vec (cv child)) \<and> length (cv child) = length f"
    and "cs \<noteq> []"
  shows "\<exists>i<length cs.
     scan_children ns f cs (PInf, node, path) =
       Inr (Fin (euclidean_distance (cv (cs ! i)) f), cs ! i, path @ cs) \<and>
     (\<forall>j<length cs. euclidean_distance (cv (cs ! i)) f \<le> euclidean_distance (cv (cs ! j)) f) \<and>
     (\<forall>j<i. euclidean_distance (cv (cs ! i)) f < euclidean_distance (cv (cs ! j)) f)"
proof -
  let ?d = "\<lambda>v. euclidean_distance (cv v) f"
  from assms(2) obtain child rest where cs: "cs = child # rest" by (cases cs) auto
  from assms(1) cs have c: "ns child = Some (Vec (cv child))" "length (cv child) = length f"
    and rest: "\<forall>x \<in> set rest. ns x = Some (Vec (cv x)) \<and> length (cv x) = length f"
    by simp_all
  have dist: "distance (Vec (cv child)) f = Inr (Fin (?d child))"
    using c(2) by (rule distance_euclidean)
  from scan_children_fin [OF rest, of "?d child" child "path @ [child]"]
  obtain m' node' where
    run: "scan_children ns f rest (Fin (?d child), child, path @ [child]) = Inr (Fin m', node', path @ child # rest)"
    and alt: "m' = ?d child \<and> node' = child \<and> (\<forall>j<length rest. ?d child \<le> ?d (rest ! j)) \<or>
      (\<exists>i<length rest. node' = rest ! i \<and> m' = ?d (rest ! i) \<and> m' < ?d child \<and>
         (\<forall>j<length rest. m' \<le> ?d (rest ! j)) \<and> (\<forall>j<i. m' < ?d (rest ! j)))"
    by auto
  have whole: "scan_children ns f cs (PInf, node, path) = Inr (Fin m', node', path @ cs)"
    using c(1) dist run by (simp add: cs)
  from alt have "\<exists>i<length cs. node' = cs ! i \<and> m' = ?d (cs ! i) \<and>
      (\<forall>j<length cs. m' \<le> ?d (cs ! j)) \<and> (\<forall>j<i. m' < ?d (cs ! j))"
  proof
    assume "m' = ?d child \<and> node' = child \<and> (\<forall>j<length rest. ?d child \<le> ?d (rest ! j))"
    then show ?thesis
      unfolding cs by (intro exI [of _ 0]) (simp add: All_less_Suc2)
  next
    assume "\<exists>i<length rest. node' = rest ! i \<and> m' = ?d (rest ! i) \<and> m' < ?d child \<and>
         (\<forall>j<length rest. m' \<le> ?d (rest ! j)) \<and> (\<forall>j<i. m' < ?d (rest ! j))"
    then obtain i where i: "i < length rest" "node' = rest ! i" "m' = ?d (rest ! i)"
      "m' < ?d child" "\<forall>j<length rest. m' \<le> ?d (rest ! j)" "\<forall>j<i. m' < ?d (rest ! j)"
      by blast
    then show ?thesis
      unfolding cs by (intro exI [of _ "Suc i"]) (simp add: All_less_Suc2)
  qed
  with whole show ?thesis by blast
qed

text \<open>
  Claim C8.  At a node of the graph that has children, all with stored centroids of the
  feature's dimension, whatever the path collected so far: the distance computed for
  each child is the Euclidean norm of the difference of its centroid and the feature,
  and there is a position \<open>i\<close> in the child list such that no child is nearer than
  child \<open>i\<close>, every child scanned before it is strictly farther, and the scan of the
  children ends with that distance as the minimum, with child \<open>i\<close> as the node and
  with all the children of the node appended to the path.  The descent continues from
  child \<open>i\<close> with that path, and returns that path when child \<open>i\<close> is a leaf.  In the
  example the feature \<open>[10]\<close> is at distance 9 and 0 from the children of the root, so
  that the second child is taken, and at distance 1 from both children of node 2, so
  that the first of them is kept.
\<close>

theorem nearest_child_selected:
  assumes "has_node (graph s) node" and "adj (graph s) node \<noteq> []"
    and "\<forall>child \<in> set (adj (graph s) node).
           nodes s child = Some (Vec (cv child)) \<and> length (cv child) = length feature"
  shows "(\<forall>child \<in> set (adj (graph s) node).
            distance (Vec (cv child)) feature = Inr (Fin (euclidean_distance (cv child) feature))) \<and>
         (\<exists>i<length (adj (graph s) node).
            (\<forall>j<length (adj (graph s) node).
               euclidean_distance (cv (adj (graph s) node ! i)) feature
                 \<le> euclidean_distance (cv (adj (graph s) node ! j)) feature) \<and>
            (\<forall>j<i. euclidean_distance (cv (adj (graph s) node ! i)) feature
                 < euclidean_distance (cv (adj (graph s) node ! j)) feature) \<and>
            scan_children (nodes s) feature (adj (graph s) node) (PInf, node, path) =
              Inr (Fin (euclidean_distance (cv (adj (graph s) node ! i)) feature),
                   adj (graph s) node ! i, path @ adj (graph s) node) \<and>
            descend s feature node path =
              descend s feature (adj (graph s) node ! i) (path @ adj (graph s) node) \<and>
            (has_node (graph s) (adj (graph s) node ! i) \<and>
             adj (graph s) (adj (graph s) node ! i) = [] \<longrightarrow>
               descend s feature node path = Some (Inr (path @ adj (graph s) node))))"
proof -
  let ?kids = "adj (graph s) node"
  let ?d = "\<lambda>v. euclidean_distance (cv v) feature"
  have dist: "\<forall>child \<in> set ?kids. distance (Vec (cv child)) feature = Inr (Fin (?d child))"
    using assms(3) by (simp add: distance_euclidean)
  from scan_children_first_min [OF assms(3,2), of node path]
  obtain i where i: "i < length ?kids"
    and run: "scan_children (nodes s) feature ?kids (PInf, node, path) = Inr (Fin (?d (?kids ! i)), ?kids ! i, path @ ?kids)"
    and least: "\<forall>j<length ?kids. ?d (?kids ! i) \<le> ?d (?kids ! j)"
    and first: "\<forall>j<i. ?d (?kids ! i) < ?d (?kids ! j)"
    by blast
  have move: "descend s feature node path = descend s feature (?kids ! i) (path @ ?kids)"
    using assms(1,2) run
    by (subst descend.simps) (simp add: out_degree_def successors_def)
  have stop: "descend s feature node path = Some (Inr (path @ ?kids))"
    if "has_node (graph s) (?kids ! i) \<and> adj (graph s) (?kids ! i) = []"
  proof -
    from that have "descend s feature (?kids ! i) (path @ ?kids) = Some (Inr (path @ ?kids))"
      by (subst descend.simps) (simp add: out_degree_def)
    with move show ?thesis by simp
  qed
  from dist i least first run move stop show ?thesis by blast
qed

theorem nearest_child_selected_witness:
  "has_node (graph example_fitted) 0 \<and>
   adj (graph example_fitted) 0 = [1, 2] \<and>
   nodes example_fitted 1 = Some (Vec [1]) \<and> nodes example_fitted 2 = Some (Vec [10]) \<and>
   distance (Vec [1]) [10] = Inr (Fin 9) \<and> distance (Vec [10]) [10] = Inr (Fin 0) \<and>
   scan_children (nodes example_fitted) [10] [1, 2] (PInf, 0, [0]) = Inr (Fin 0, 2, [0, 1, 2]) \<and>
   descend example_fitted [10] 0 [0] = descend example_fitted [10] 2 [0, 1, 2] \<and>
   has_node (graph example_fitted) 2 \<and>
   adj (graph example_fitted) 2 = [3, 4] \<and>
   nodes example_fitted 3 = Some (Vec [9]) \<and> nodes example_fitted 4 = Some (Vec [11]) \<and>
   distance (Vec [9]) [10] = Inr (Fin 1) \<and> distance (Vec [11]) [10] = Inr (Fin 1) \<and>
   scan_children (nodes example_fitted) [10] [3, 4] (PInf, 2, [0, 1, 2]) =
     Inr (Fin 1, 3, [0, 1, 2, 3, 4]) \<and>
   has_node (graph example_fitted) 3 \<and> adj (graph example_fitted) 3 = [] \<and>
   descend example_fitted [10] 2 [0, 1, 2] = Some (Inr [0, 1, 2, 3, 4]) \<and>
   descend example_fitted [10] 0 [0] = Some (Inr [0, 1, 2, 3, 4])"
proof -
  let ?cv = "\<lambda>n::nat. if n = 1 then [1::real] else if n = 2 then [10] else if n = 3 then [9] else [11]"
  have n0: "has_node (graph example_fitted) 0" and n2: "has_node (graph example_fitted) 2"
    and n3: "has_node (graph example_fitted) 3"
    by (simp_all add: example_fitted_def example_graph_def has_node_def node_ids_def)
  have k0: "adj (graph example_fitted) 0 = [1, 2]" and k2: "adj (graph example_fitted) 2 = [3, 4]"
    and k3: "adj (graph example_fitted) 3 = []"
    by (simp_all add: example_fitted_def example_graph_def)
  have c: "nodes example_fitted 1 = Some (Vec [1])" "nodes example_fitted 2 = Some (Vec [10])"
    "nodes example_fitted 3 = Some (Vec [9])" "nodes example_fitted 4 = Some (Vec [11])"
    by (simp_all add: example_fitted_def)
  have h0: "\<forall>child \<in> set (adj (graph example_fitted) 0).
      nodes example_fitted child = Some (Vec (?cv child)) \<and> length (?cv child) = length [10::real]"
    by (simp add: k0) (simp add: example_fitted_def)
  have h2: "\<forall>child \<in> set (adj (graph example_fitted) 2).
      nodes example_fitted child = Some (Vec (?cv child)) \<and> length (?cv child) = length [10::real]"
    by (simp add: k2) (simp add: example_fitted_def)
  have e: "euclidean_distance [1] [10] = 9" "euclidean_distance [10] [10] = 0"
    "euclidean_distance [9] [10] = 1" "euclidean_distance [11] [10] = 1"
    by (simp_all add: euclidean_distance_def)
  have ne: "adj (graph example_fitted) 0 \<noteq> []" "adj (graph example_fitted) 2 \<noteq> []"
    by (simp_all add: k0 k2)
  note top = nearest_child_selected [of example_fitted 0 ?cv "[10]" "[0]", OF n0 ne(1) h0]
  note low = nearest_child_selected [of example_fitted 2 ?cv "[10]" "[0, 1, 2]", OF n2 ne(2) h2]
  from low obtain i where i: "i < length (adj (graph example_fitted) 2)"
    and first: "\<forall>j<i. euclidean_distance (?cv (adj (graph example_fitted) 2 ! i)) [10]
                 < euclidean_distance (?cv (adj (graph example_fitted) 2 ! j)) [10]"
    and scan: "scan_children (nodes example_fitted) [10] (adj (graph example_fitted) 2) (PInf, 2, [0, 1, 2]) =
              Inr (Fin (euclidean_distance (?cv (adj (graph example_fitted) 2 ! i)) [10]),
                   adj (graph example_fitted) 2 ! i, [0, 1, 2] @ adj (graph example_fitted) 2)"
    and stop: "has_node (graph example_fitted) (adj (graph example_fitted) 2 ! i) \<and>
             adj (graph example_fitted) (adj (graph example_fitted) 2 ! i) = [] \<longrightarrow>
               descend example_fitted [10] 2 [0, 1, 2] = Some (Inr ([0, 1, 2] @ adj (graph example_fitted) 2))"
    by blast
  have "i = 0"
  proof (rule ccontr)
    assume "i \<noteq> 0"
    with i have "i = 1" by (simp add: k2)
    with first show False by (auto simp: k2 e)
  qed
  with scan stop have l: "scan_children (nodes example_fitted) [10] [3, 4] (PInf, 2, [0, 1, 2]) =
     Inr (Fin 1, 3, [0, 1, 2, 3, 4])" "descend example_fitted [10] 2 [0, 1, 2] = Some (Inr [0, 1, 2, 3, 4])"
    by (simp_all add: k2 k3 n3 e)
  from low have ld: "distance (Vec [9]) [10] = Inr (Fin 1)" "distance (Vec [11]) [10] = Inr (Fin 1)"
    by (simp_all add: k2 e)
  from top obtain i' where i': "i' < length (adj (graph example_fitted) 0)"
    and least': "\<forall>j<length (adj (graph example_fitted) 0).
               euclidean_distance (?cv (adj (graph example_fitted) 0 ! i')) [10]
                 \<le> euclidean_distance (?cv (adj (graph example_fitted) 0 ! j)) [10]"
    and scan': "scan_children (nodes example_fitted) [10] (adj (graph example_fitted) 0) (PInf, 0, [0]) =
              Inr (Fin (euclidean_distance (?cv (adj (graph example_fitted) 0 ! i')) [10]),
                   adj (graph example_fitted) 0 ! i', [0] @ adj (graph example_fitted) 0)"
    and move': "descend example_fitted [10] 0 [0] =
              descend example_fitted [10] (adj (graph example_fitted) 0 ! i') ([0] @ adj (graph example_fitted) 0)"
    by blast
  have "i' = 1"
  proof (rule ccontr)
    assume "i' \<noteq> 1"
    with i' have "i' = 0" by (simp add: k0)
    with least' show False by (auto simp: k0 e)
  qed
  with scan' move' have t: "scan_children (nodes example_fitted) [10] [1, 2] (PInf, 0, [0]) = Inr (Fin 0, 2, [0, 1, 2])"
    "descend example_fitted [10] 0 [0] = descend example_fitted [10] 2 [0, 1, 2]"
    by (simp_all add: k0 e)
  from top have td: "distance (Vec [1]) [10] = Inr (Fin 9)" "distance (Vec [10]) [10] = Inr (Fin 0)"
    by (simp_all add: k0 e)
  from t(2) l(2) have d0: "descend example_fitted [10] 0 [0] = Some (Inr [0, 1, 2, 3, 4])"
    by (simp only:)
  from l ld t td d0 n0 n2 n3 k0 k2 k3 c show ?thesis by blast
qed

section \<open>Routing and recording in a fitted tree\<close>

text \<open>
  A feature can be subtracted from every stored cluster centre: the lengths agree, or one
  of the two is a vector of length one.  For any other feature the subtraction raises.
\<close>

definition feature_fits :: "'id cbir \<Rightarrow> real list \<Rightarrow> bool" where
  "feature_fits s f \<longleftrightarrow>
     (\<forall>n c. nodes s n = Some (Vec c) \<longrightarrow> length c = length f \<or> length c = 1 \<or> length f = 1)"

lemma distance_Fin:
  assumes "length c = length f \<or> length c = 1 \<or> length f = 1"
  shows "\<exists>x. distance (Vec c) f = Inr (Fin x)"
proof -
  from assms have "\<exists>d. broadcast_sub c f = Inr d"
    by (auto simp: broadcast_sub_def)
  then obtain d where "broadcast_sub c f = Inr d" ..
  then have "distance (Vec c) f = Inr (frobenius_norm [map Fin d])"
    by (simp add: distance_def centroid_minus_def)
  then show ?thesis by (simp only: frobenius_norm_Fin) blast
qed

lemma scan_children_member:
  assumes "\<forall>child \<in> set cs. \<exists>c. ns child = Some (Vec c) \<and>
             (length c = length f \<or> length c = 1 \<or> length f = 1)"
  shows "\<exists>md' node'. scan_children ns f cs (md, node, path) = Inr (md', node', path @ cs) \<and>
           node' \<in> insert node (set cs)"
  using assms
proof (induction cs arbitrary: md node path)
  case Nil
  then show ?case by simp
next
  case (Cons child rest)
  from Cons.prems obtain c where c: "ns child = Some (Vec c)"
    and fits: "length c = length f \<or> length c = 1 \<or> length f = 1"
    by auto
  from distance_Fin [OF fits] obtain x where x: "distance (Vec c) f = Inr (Fin x)" by blast
  from Cons.prems have rest: "\<forall>child \<in> set rest. \<exists>c. ns child = Some (Vec c) \<and>
             (length c = length f \<or> length c = 1 \<or> length f = 1)" by simp
  show ?case
  proof (cases "np_less (Fin x) md")
    case True
    from Cons.IH [OF rest, of "Fin x" child "path @ [child]"] True c x show ?thesis by auto
  next
    case False
    from Cons.IH [OF rest, of md node "path @ [child]"] False c x show ?thesis by auto
  qed
qed

lemma scan_children_moves:
  assumes "\<forall>child \<in> set cs. \<exists>c. ns child = Some (Vec c) \<and>
             (length c = length f \<or> length c = 1 \<or> length f = 1)"
    and "cs \<noteq> []"
  shows "\<exists>md' node'. scan_children ns f cs (PInf, node, path) = Inr (md', node', path @ cs) \<and>
           node' \<in> set cs"
proof -
  from assms(2) obtain child rest where cs: "cs = child # rest" by (cases cs) auto
  from assms(1) cs obtain c where c: "ns child = Some (Vec c)"
    and fits: "length c = length f \<or> length c = 1 \<or> length f = 1"
    by auto
  from distance_Fin [OF fits] obtain x where x: "distance (Vec c) f = Inr (Fin x)" by blast
  from assms(1) cs have rest: "\<forall>child \<in> set rest. \<exists>c. ns child = Some (Vec c) \<and>
             (length c = length f \<or> length c = 1 \<or> length f = 1)" by simp
  from scan_children_member [OF rest, of "Fin x" child "path @ [child]"] c x
  show ?thesis by (auto simp: cs)
qed

lemma tree_ok_has_node: "tree_ok s \<Longrightarrow> has_node (graph s) n \<longleftrightarrow> n \<le> current_index s"
  by (auto simp: tree_ok_def has_node_def simp del: upt_Suc)

lemma descend_returns:
  assumes "tree_ok s" and "feature_fits s f" and "node \<le> current_index s"
  shows "\<exists>trail. descend s f node path = Some (Inr (path @ trail)) \<and>
           (\<forall>v \<in> set trail. node < v \<and> v \<le> current_index s)"
  using assms(3)
proof (induction "current_index s - node" arbitrary: node path rule: less_induct)
  case less
  let ?kids = "adj (graph s) node"
  have hn: "has_node (graph s) node"
    using less.prems assms(1) by (simp add: tree_ok_has_node)
  from assms(1) have kids: "\<forall>v \<in> set ?kids. node < v \<and> v \<le> current_index s \<and> (\<exists>x. nodes s v = Some (Vec x))"
    by (simp add: tree_ok_def kids_ok_def)
  show ?case
  proof (cases "?kids = []")
    case True
    with hn have "descend s f node path = Some (Inr path)"
      by (subst descend.simps) (simp add: out_degree_def)
    then show ?thesis by simp
  next
    case False
    have "\<forall>child \<in> set ?kids. \<exists>c. nodes s child = Some (Vec c) \<and>
             (length c = length f \<or> length c = 1 \<or> length f = 1)"
      using kids assms(2) by (fastforce simp: feature_fits_def)
    from scan_children_moves [OF this False, of node path]
    obtain md' node' where
      run: "scan_children (nodes s) f ?kids (PInf, node, path) = Inr (md', node', path @ ?kids)"
      and mem: "node' \<in> set ?kids" by blast
    from mem kids have n': "node < node'" "node' \<le> current_index s" by auto
    then have "current_index s - node' < current_index s - node" by simp
    from less.hyps [OF this n'(2), of "path @ ?kids"]
    obtain trail where trail: "descend s f node' (path @ ?kids) = Some (Inr ((path @ ?kids) @ trail))"
      "\<forall>v \<in> set trail. node' < v \<and> v \<le> current_index s" by blast
    have "descend s f node path = Some (Inr (path @ (?kids @ trail)))"
      using hn False run trail(1)
      by (subst descend.simps) (simp add: out_degree_def successors_def)
    moreover have "\<forall>v \<in> set (?kids @ trail). node < v \<and> v \<le> current_index s"
      using kids trail(2) n'(1) by auto
    ultimately show ?thesis by blast
  qed
qed

lemma propagate_feature_returns:
  assumes "tree_ok s" and "feature_fits s f" and "node \<le> current_index s"
  shows "\<exists>trail. propagate_feature s f node = Some (Inr (node # trail)) \<and>
           (\<forall>v \<in> set trail. node < v \<and> v \<le> current_index s)"
  using descend_returns [OF assms, of "[node]"] by (simp add: propagate_feature_def)

text \<open>
  The visit count that a node records for an image: the entry of the image in the
  attribute dictionary of the node, 0 when the node or the entry is missing.
\<close>

definition node_visits :: "'id cbir \<Rightarrow> nat \<Rightarrow> 'id \<Rightarrow> npfloat" where
  "node_visits s n image_id =
     (case map_of (node_attrs (graph s)) n of None \<Rightarrow> Fin 0 | Some a \<Rightarrow> visit_count a image_id)"

lemma visit_count_update:
  "visit_count (AList.update (Img i) v a) j = (if j = i then v else visit_count a j)"
  by (simp add: visit_count_def update_conv')

lemma visit_count_update_W: "visit_count (AList.update W v a) j = visit_count a j"
  by (simp add: visit_count_def update_conv')

lemma record_visit_returns:
  "has_node (graph s) n \<Longrightarrow> \<exists>s'. record_visit image_id n s = Inr s'"
  by (auto simp: record_visit_def has_node_def node_ids_def map_of_eq_None_iff
      split: option.splits)

lemma record_visit_unfold:
  assumes "record_visit i n s = Inr s'"
  shows "\<exists>a. map_of (node_attrs (graph s)) n = Some a \<and>
           s' = s\<lparr>graph := set_attrs n
                  (AList.update (Img i) (np_add (visit_count a i) (Fin 1)) a) (graph s)\<rparr>"
proof -
  from assms obtain a where a: "map_of (node_attrs (graph s)) n = Some a"
    by (auto simp: record_visit_def split: option.splits)
  show ?thesis
  proof (cases "map_of a (Img i)")
    case None
    with assms a show ?thesis by (simp add: record_visit_def visit_count_def)
  next
    case (Some v)
    with assms a show ?thesis by (simp add: record_visit_def visit_count_def)
  qed
qed

lemma record_visit_visits:
  assumes "record_visit i n s = Inr s'"
  shows "node_visits s' m j =
     (if m = n \<and> j = i then np_add (node_visits s n i) (Fin 1) else node_visits s m j)"
proof -
  from record_visit_unfold [OF assms] obtain a where
    a: "map_of (node_attrs (graph s)) n = Some a" and
    s': "s' = s\<lparr>graph := set_attrs n
                  (AList.update (Img i) (np_add (visit_count a i) (Fin 1)) a) (graph s)\<rparr>"
    by blast
  show ?thesis
  proof (cases "m = n")
    case True
    with a show ?thesis
      by (simp add: s' node_visits_def set_attrs_def update_conv' visit_count_update)
  next
    case False
    then show ?thesis
      by (simp add: s' node_visits_def set_attrs_def update_conv')
  qed
qed

lemma same_topology_has_node: "same_topology s s' \<Longrightarrow> has_node (graph s') n = has_node (graph s) n"
  by (simp add: same_topology_def has_node_def)

lemma record_visits_returns:
  assumes "\<forall>n \<in> set ns. has_node (graph s) n"
  shows "\<exists>s'. fold_err (record_visit i) ns s = Inr s' \<and> same_topology s s' \<and>
           (\<forall>m j. m \<notin> set ns \<longrightarrow> node_visits s' m j = node_visits s m j)"
  using assms
proof (induction ns arbitrary: s)
  case Nil
  then show ?case by (simp add: same_topology_refl)
next
  case (Cons n ns)
  from Cons.prems record_visit_returns obtain t where t: "record_visit i n s = Inr t"
    by fastforce
  have top: "same_topology s t" using t by (rule record_visit_topology)
  with Cons.prems have "\<forall>n \<in> set ns. has_node (graph t) n"
    by (simp add: same_topology_has_node)
  from Cons.IH [OF this] obtain s' where s': "fold_err (record_visit i) ns t = Inr s'"
    "same_topology t s'" "\<forall>m j. m \<notin> set ns \<longrightarrow> node_visits s' m j = node_visits t m j"
    by blast
  have "\<forall>m j. m \<notin> set (n # ns) \<longrightarrow> node_visits s' m j = node_visits s m j"
    using s'(3) record_visit_visits [OF t] by simp
  with t s'(1,2) top show ?case
    by (auto intro: same_topology_trans)
qed

lemma record_path_root:
  assumes "tree_ok s" and "\<forall>v \<in> set trail. 0 < v \<and> v \<le> current_index s"
  shows "\<exists>s'. fold_err (record_visit i) (0 # trail) s = Inr s' \<and> same_topology s s' \<and>
           node_visits s' 0 i = np_add (node_visits s 0 i) (Fin 1)"
proof -
  have "has_node (graph s) 0" using assms(1) by (simp add: tree_ok_has_node)
  from record_visit_returns [OF this] obtain t where t: "record_visit i 0 s = Inr t" by blast
  have top: "same_topology s t" using t by (rule record_visit_topology)
  have "\<forall>n \<in> set trail. has_node (graph t) n"
    using assms by (simp add: same_topology_has_node [OF top] tree_ok_has_node)
  from record_visits_returns [OF this, of i] obtain s' where
    s': "fold_err (record_visit i) trail t = Inr s'" "same_topology t s'"
    "\<forall>m j. m \<notin> set trail \<longrightarrow> node_visits s' m j = node_visits t m j"
    by blast
  from assms(2) have "0 \<notin> set trail" by auto
  with s'(3) have "node_visits s' 0 i = node_visits t 0 i" by simp
  also have "\<dots> = np_add (node_visits s 0 i) (Fin 1)"
    using record_visit_visits [OF t] by simp
  finally show ?thesis using t s'(1,2) top by (auto intro: same_topology_trans)
qed

lemma tree_ok_same_topology: "same_topology s s' \<Longrightarrow> tree_ok s \<Longrightarrow> tree_ok s'"
  by (simp add: same_topology_def tree_ok_def kids_ok_def)

lemma feature_fits_same_topology: "same_topology s s' \<Longrightarrow> feature_fits s f \<Longrightarrow> feature_fits s' f"
  by (simp add: same_topology_def feature_fits_def)

lemma np_add_Fin_Fin: "np_add (np_add v (Fin a)) (Fin b) = np_add v (Fin (a + b))"
  by (cases v) simp_all

lemma np_add_Fin_0: "np_add v (Fin 0) = v"
  by (cases v) simp_all

lemma propagate_steps:
  assumes "tree_ok s" and "\<forall>f \<in> set fs. feature_fits s f"
  shows "\<exists>s'. fold_res (\<lambda>feature s1.
           case propagate_feature s1 feature 0 of
             None \<Rightarrow> None
           | Some (Inl e) \<Rightarrow> Some (Inl e)
           | Some (Inr path) \<Rightarrow> Some (fold_err (record_visit i) path s1)) fs s = Some (Inr s') \<and>
         same_topology s s' \<and>
         node_visits s' 0 i = np_add (node_visits s 0 i) (Fin (real (length fs)))"
  using assms
proof (induction fs arbitrary: s)
  case Nil
  then show ?case by (simp add: same_topology_refl np_add_Fin_0)
next
  case (Cons f fs)
  from Cons.prems have fits: "feature_fits s f" by simp
  from propagate_feature_returns [OF Cons.prems(1) fits, of 0] obtain trail where
    path: "propagate_feature s f 0 = Some (Inr (0 # trail))"
    and trail: "\<forall>v \<in> set trail. 0 < v \<and> v \<le> current_index s" by blast
  from record_path_root [OF Cons.prems(1) trail, of i] obtain t where
    t: "fold_err (record_visit i) (0 # trail) s = Inr t" "same_topology s t"
    "node_visits t 0 i = np_add (node_visits s 0 i) (Fin 1)" by blast
  have ok: "tree_ok t" using t(2) Cons.prems(1) by (rule tree_ok_same_topology)
  have "\<forall>f \<in> set fs. feature_fits t f"
    using Cons.prems(2) t(2) by (simp add: feature_fits_same_topology)
  from Cons.IH [OF ok this] obtain s' where
    s': "fold_res (\<lambda>feature s1.
           case propagate_feature s1 feature 0 of
             None \<Rightarrow> None
           | Some (Inl e) \<Rightarrow> Some (Inl e)
           | Some (Inr path) \<Rightarrow> Some (fold_err (record_visit i) path s1)) fs t = Some (Inr s')"
    "same_topology t s'"
    "node_visits s' 0 i = np_add (node_visits t 0 i) (Fin (real (length fs)))" by blast
  have "node_visits s' 0 i = np_add (node_visits s 0 i) (Fin (real (length (f # fs))))"
    by (simp add: s'(3) t(3) np_add_Fin_Fin add.commute)
  with path t(1,2) s'(1,2) show ?case
    by (auto intro: same_topology_trans)
qed

lemma propagate_root_count:
  assumes "tree_ok s" and "\<forall>f \<in> set (extract_image_features c image_path). feature_fits s f"
  shows "\<exists>s'. propagate c image_path s = Some (Inr s') \<and>
           node_visits s' 0 (get_image_id c image_path) =
             np_add (node_visits s 0 (get_image_id c image_path))
               (Fin (real (length (extract_image_features c image_path))))"
  using propagate_steps [OF assms, of "get_image_id c image_path"]
  by (auto simp: propagate_def Let_def)


text \<open>Every visit count is a natural number.\<close>

definition counts_nat :: "'id cbir \<Rightarrow> bool" where
  "counts_nat s \<longleftrightarrow> (\<forall>n i. \<exists>k::nat. node_visits s n i = Fin (real k))"

text \<open>The natural number that a visit count stands for.\<close>

definition count_of :: "npfloat \<Rightarrow> nat" where
  "count_of v = (case v of Fin x \<Rightarrow> nat \<lfloor>x\<rfloor> | _ \<Rightarrow> 0)"

lemma count_of_nat: "count_of (Fin (real k)) = k"
  by (simp add: count_of_def)

lemma counts_nat_count_of:
  "counts_nat s \<Longrightarrow> node_visits s n i = Fin (real (count_of (node_visits s n i)))"
  by (metis counts_nat_def count_of_nat)

lemma record_visit_counts_nat:
  assumes "record_visit i n s = Inr s'" and "counts_nat s"
  shows "counts_nat s'"
  unfolding counts_nat_def
proof (intro allI)
  fix m j
  from assms(2) obtain k :: nat where k: "node_visits s m j = Fin (real k)"
    by (auto simp: counts_nat_def)
  from assms(2) obtain k' :: nat where k': "node_visits s n i = Fin (real k')"
    by (auto simp: counts_nat_def)
  show "\<exists>k::nat. node_visits s' m j = Fin (real k)"
  proof (cases "m = n \<and> j = i")
    case True
    then have "node_visits s' m j = Fin (real (Suc k'))"
      by (simp add: record_visit_visits [OF assms(1)] k')
    then show ?thesis ..
  next
    case False
    then have "node_visits s' m j = Fin (real k)"
      by (auto simp: record_visit_visits [OF assms(1)] k)
    then show ?thesis ..
  qed
qed

lemma propagate_counts_nat:
  assumes "propagate c image_path s = Some (Inr s')" and "counts_nat s"
  shows "counts_nat s'"
proof -
  let ?step = "\<lambda>feature s1.
       case propagate_feature s1 feature 0 of
         None \<Rightarrow> None
       | Some (Inl e) \<Rightarrow> Some (Inl e)
       | Some (Inr path) \<Rightarrow>
           Some (fold_err (record_visit (get_image_id c image_path)) path s1)"
  from assms(1) have run: "fold_res ?step (extract_image_features c image_path) s = Some (Inr s')"
    by (simp add: propagate_def Let_def)
  show ?thesis
  proof (rule fold_res_invariant [OF run, where P = counts_nat])
    show "counts_nat s" by (rule assms(2))
  next
    fix x t t'
    assume t: "counts_nat t" and step: "?step x t = Some (Inr t')"
    from step obtain path where
      visits: "fold_err (record_visit (get_image_id c image_path)) path t = Inr t'"
      by (auto split: option.splits sum.splits)
    show "counts_nat t'"
      by (rule fold_err_invariant [where P = counts_nat, OF visits t])
        (blast intro: record_visit_counts_nat)
  qed
qed

text \<open>What the weight loop does to one attribute dictionary.\<close>

definition weigh :: "nat \<Rightarrow> 'id attrs \<Rightarrow> 'id attrs" where
  "weigh N files =
     (if length files \<noteq> 0
      then AList.update W (np_log (Fin (real N / real (length files)))) files else files)"

lemma set_weights_weigh:
  "set_weights N s =
     s\<lparr>graph := (graph s)\<lparr>node_attrs := map (\<lambda>(n, files). (n, weigh N files)) (node_attrs (graph s))\<rparr>\<rparr>"
proof -
  have eq: "(\<lambda>(node_id, files).
               let N_i = length files
               in if N_i \<noteq> 0
                  then (node_id, AList.update W (np_log (Fin (real N / real N_i))) files)
                  else (node_id, files)) = (\<lambda>(n, files :: 'a attrs). (n, weigh N files))"
    by (auto simp: weigh_def fun_eq_iff)
  show ?thesis by (simp only: set_weights_def eq)
qed

lemma visit_count_weigh: "visit_count (weigh N a) i = visit_count a i"
  by (simp add: weigh_def visit_count_update_W)

lemma node_visits_set_weights: "node_visits (set_weights N s) n i = node_visits s n i"
  by (simp add: set_weights_weigh node_visits_def map_of_map visit_count_weigh
      split: option.splits)

lemma set_weights_counts_nat: "counts_nat s \<Longrightarrow> counts_nat (set_weights N s)"
  by (simp add: counts_nat_def node_visits_set_weights)

lemma index_counts_nat:
  assumes "index c parallel s = Some (Inr s')" and "counts_nat s"
  shows "counts_nat s'"
proof -
  from assms(1) obtain s1 where
    s1: "(if parallel then Some (Inr s) else fold_res (propagate c) (all_images c) s) = Some (Inr s1)"
    and s': "s' = set_weights (dataset_len c) s1"
    by (auto simp: index_def split: option.splits sum.splits)
  have "counts_nat s1"
  proof (cases parallel)
    case True
    with s1 assms(2) show ?thesis by simp
  next
    case False
    with s1 have run: "fold_res (propagate c) (all_images c) s = Some (Inr s1)" by simp
    show ?thesis
      by (rule fold_res_invariant [OF run, where P = counts_nat])
        (blast intro: assms(2) propagate_counts_nat)+
  qed
  with s' show ?thesis by (simp add: set_weights_counts_nat)
qed

lemma retrieve_counts_nat:
  assumes "retrieve c query s = Some (Inr (s', ranked))" and "counts_nat s"
  shows "counts_nat s'"
  using assms
  by (auto simp: retrieve_def split: option.splits sum.splits intro: propagate_counts_nat)

lemma attrs_empty_counts_nat:
  assumes "attrs_empty s"
  shows "counts_nat s"
proof -
  have "node_visits s n i = Fin (real 0)" for n i
  proof (cases "map_of (node_attrs (graph s)) n")
    case None
    then show ?thesis by (simp add: node_visits_def)
  next
    case (Some a)
    then have "(n, a) \<in> set (node_attrs (graph s))" by (rule map_of_SomeD)
    with assms have "a = []" by (auto simp: attrs_empty_def)
    with Some show ?thesis by (simp add: node_visits_def visit_count_def)
  qed
  then show ?thesis unfolding counts_nat_def by blast
qed

lemma fitted_invariants:
  assumes "fitted c s"
  shows "tree_ok s \<and> counts_nat s"
  using assms
proof (induction rule: fitted.induct)
  case (fit_done c km features root_val s)
  from fit_post_init [OF fit_done] obtain k r where post: "fit_post c init_cbir 0 0 k r s"
    by blast
  then have "attrs_empty s" by (simp add: fit_post_def)
  with post show ?case by (simp add: fit_post_tree_ok attrs_empty_counts_nat)
next
  case (propagate_done c s image_path s')
  then show ?case
    by (blast intro: tree_ok_same_topology propagate_topology propagate_counts_nat)
next
  case (index_done c s parallel s')
  then show ?case
    by (blast intro: tree_ok_same_topology index_topology index_counts_nat)
next
  case (retrieve_done c s query s' ranked)
  then show ?case
    by (blast intro: tree_ok_same_topology retrieve_topology retrieve_counts_nat)
qed

lemma example_is_fitted: "fitted example_config example_fitted"
  using example_fit by (rule fit_done)

lemma example_indexed_is_fitted: "fitted example_config example_indexed"
  using example_is_fitted example_index by (rule index_done)

lemma example_nodes_Vec:
  "nodes example_fitted n = Some (Vec c) \<Longrightarrow> length c = 1"
  by (auto simp: example_fitted_def split: if_splits)

text \<open>
  Visits are recorded under the id of the image that is propagated, so that the counts of
  every other id stay as they are.
\<close>

lemma record_visits_other_id:
  assumes "fold_err (record_visit i) ns s = Inr s'" and "j \<noteq> i"
  shows "node_visits s' m j = node_visits s m j"
proof (rule fold_err_invariant [where P = "\<lambda>t. node_visits t m j = node_visits s m j", OF assms(1)])
  show "node_visits s m j = node_visits s m j" ..
next
  fix x t t'
  assume "node_visits t m j = node_visits s m j" and "record_visit i x t = Inr t'"
  with assms(2) show "node_visits t' m j = node_visits s m j"
    by (simp add: record_visit_visits)
qed

lemma propagate_other_id:
  assumes "propagate c image_path s = Some (Inr s')" and "j \<noteq> get_image_id c image_path"
  shows "node_visits s' m j = node_visits s m j"
proof -
  let ?step = "\<lambda>feature s1.
       case propagate_feature s1 feature 0 of
         None \<Rightarrow> None
       | Some (Inl e) \<Rightarrow> Some (Inl e)
       | Some (Inr path) \<Rightarrow>
           Some (fold_err (record_visit (get_image_id c image_path)) path s1)"
  from assms(1) have run: "fold_res ?step (extract_image_features c image_path) s = Some (Inr s')"
    by (simp add: propagate_def Let_def)
  show ?thesis
  proof (rule fold_res_invariant [OF run, where P = "\<lambda>t. node_visits t m j = node_visits s m j"])
    show "node_visits s m j = node_visits s m j" ..
  next
    fix x t t'
    assume t: "node_visits t m j = node_visits s m j" and step: "?step x t = Some (Inr t')"
    from step obtain path where
      "fold_err (record_visit (get_image_id c image_path)) path t = Inr t'"
      by (auto split: option.splits sum.splits)
    from record_visits_other_id [OF this assms(2)] t
    show "node_visits t' m j = node_visits s m j" by simp
  qed
qed

lemma propagate_no_features:
  "extract_image_features c image_path = [] \<Longrightarrow> propagate c image_path s = Some (Inr s)"
  by (simp add: propagate_def)

text \<open>The number of visits that the root records for an image.\<close>

definition root_count :: "'id cbir \<Rightarrow> 'id \<Rightarrow> nat" where
  "root_count s image_id = count_of (node_visits s 0 image_id)"

lemma propagate_root_counts:
  assumes "tree_ok s" and "counts_nat s"
    and "\<forall>f \<in> set (extract_image_features c image_path). feature_fits s f"
  shows "\<exists>s'. propagate c image_path s = Some (Inr s') \<and>
           (\<forall>j. root_count s' j =
                  (if j = get_image_id c image_path
                   then root_count s j + length (extract_image_features c image_path)
                   else root_count s j))"
proof -
  let ?i = "get_image_id c image_path"
  from propagate_root_count [OF assms(1,3)] obtain s' where
    run: "propagate c image_path s = Some (Inr s')"
    and own: "node_visits s' 0 ?i =
       np_add (node_visits s 0 ?i) (Fin (real (length (extract_image_features c image_path))))"
    by blast
  have "node_visits s 0 ?i = Fin (real (root_count s ?i))"
    unfolding root_count_def using assms(2) by (rule counts_nat_count_of)
  with own have "node_visits s' 0 ?i =
      Fin (real (root_count s ?i + length (extract_image_features c image_path)))"
    by simp
  then have "root_count s' ?i = root_count s ?i + length (extract_image_features c image_path)"
    by (simp only: root_count_def [of s'] count_of_nat)
  moreover have "root_count s' j = root_count s j" if "j \<noteq> ?i" for j
    using propagate_other_id [OF run that] by (simp add: root_count_def)
  ultimately show ?thesis using run by auto
qed

lemma index_root_counts:
  assumes "tree_ok s" and "counts_nat s"
    and "\<forall>img \<in> set imgs. \<forall>f \<in> set (extract_image_features c img). feature_fits s f"
  shows "\<exists>t. fold_res (propagate c) imgs s = Some (Inr t) \<and>
           (\<forall>j. root_count s j \<le> root_count t j) \<and>
           (\<forall>img \<in> set imgs.
              root_count s (get_image_id c img) + length (extract_image_features c img)
                \<le> root_count t (get_image_id c img))"
  using assms
proof (induction imgs arbitrary: s)
  case Nil
  then show ?case by simp
next
  case (Cons img imgs)
  from Cons.prems(3) have fits: "\<forall>f \<in> set (extract_image_features c img). feature_fits s f"
    by simp
  from propagate_root_counts [OF Cons.prems(1,2) fits] obtain s1 where
    run: "propagate c img s = Some (Inr s1)"
    and counts: "\<forall>j. root_count s1 j =
                  (if j = get_image_id c img
                   then root_count s j + length (extract_image_features c img)
                   else root_count s j)"
    by blast
  have top: "same_topology s s1" using run by (rule propagate_topology)
  have ok: "tree_ok s1" using top Cons.prems(1) by (rule tree_ok_same_topology)
  have nat: "counts_nat s1" using run Cons.prems(2) by (rule propagate_counts_nat)
  have "\<forall>img \<in> set imgs. \<forall>f \<in> set (extract_image_features c img). feature_fits s1 f"
    using Cons.prems(3) top by (simp add: feature_fits_same_topology)
  from Cons.IH [OF ok nat this] obtain t where
    t: "fold_res (propagate c) imgs s1 = Some (Inr t)"
    and mono: "\<forall>j. root_count s1 j \<le> root_count t j"
    and each: "\<forall>img \<in> set imgs.
              root_count s1 (get_image_id c img) + length (extract_image_features c img)
                \<le> root_count t (get_image_id c img)"
    by blast
  have whole: "fold_res (propagate c) (img # imgs) s = Some (Inr t)"
    using run t by simp
  have step: "root_count s j \<le> root_count s1 j" for j
    using counts by simp
  have mono': "\<forall>j. root_count s j \<le> root_count t j"
    using step mono by (blast intro: order_trans)
  have "root_count s (get_image_id c x) + length (extract_image_features c x)
          \<le> root_count t (get_image_id c x)" if "x \<in> set (img # imgs)" for x
  proof (cases "x = img")
    case True
    have "root_count s (get_image_id c img) + length (extract_image_features c img)
            = root_count s1 (get_image_id c img)"
      using counts by simp
    also have "\<dots> \<le> root_count t (get_image_id c img)" using mono by simp
    finally show ?thesis using True by simp
  next
    case False
    with that have "x \<in> set imgs" by simp
    with each have "root_count s1 (get_image_id c x) + length (extract_image_features c x)
                \<le> root_count t (get_image_id c x)" by simp
    with step [of "get_image_id c x"] show ?thesis by simp
  qed
  with whole mono' show ?case by blast
qed


text \<open>
  A dataset with a third image from which no descriptor is extracted.  The pooled
  descriptors are those of the example, so that \<open>fit\<close> with the same clustering builds
  the same tree.
\<close>

definition blank_config :: "(string, string) config" where
  "blank_config =
     \<lparr>n_branches = 2, depth = 2, all_images = [''a'', ''b'', ''c''],
      extract_image_features =
        (\<lambda>i. if i = ''a'' then [[1]] else if i = ''b'' then [[9], [11]] else []),
      get_image_id = (\<lambda>i. i)\<rparr>"

definition blank_indexed :: "string cbir" where
  "blank_indexed = with_attrs
     [(0, [(Img ''a'', Fin 1), (Img ''b'', Fin 2), (W, Fin (ln (3 / 2)))]),
      (1, [(Img ''a'', Fin 1), (Img ''b'', Fin 2), (W, Fin (ln (3 / 2)))]),
      (2, [(Img ''a'', Fin 1), (Img ''b'', Fin 2), (W, Fin (ln (3 / 2)))]),
      (3, [(Img ''b'', Fin 2), (W, Fin (ln 3))]),
      (4, [(Img ''b'', Fin 2), (W, Fin (ln 3))])] example_fitted"

text \<open>
  Claim C10 ends with "consequently every indexed image visits the root".  The loop of
  \<open>propagate\<close> over the feature vectors of an image does not run for an image without
  feature vectors: no path is computed and nothing is recorded, at the root or anywhere
  else.  In the dataset with the third image, \<open>propagate\<close> of that image returns the
  object unchanged, and after a sequential \<open>index\<close> of the three images the root holds
  entries for the first two images and none for the third, whose visit count there is 0.
\<close>

theorem image_without_features_misses_root:
  "fit blank_config example_clustering init_cbir None 0 None 0 = Inr example_fitted \<and>
   ''c'' \<in> set (all_images blank_config) \<and>
   extract_image_features blank_config ''c'' = [] \<and>
   propagate blank_config ''c'' example_fitted = Some (Inr example_fitted) \<and>
   index blank_config False example_fitted = Some (Inr blank_indexed) \<and>
   map_of (node_attrs (graph blank_indexed)) 0 =
     Some [(Img ''a'', Fin 1), (Img ''b'', Fin 2), (W, Fin (ln (3 / 2)))] \<and>
   node_visits blank_indexed 0 (get_image_id blank_config ''c'') = Fin 0"
proof -
  have f: "fit blank_config example_clustering init_cbir None 0 None 0 = Inr example_fitted"
    by (simp add: fit_def blank_config_def extract_features_def np_mean_def fit_node.simps
      example_clustering_def example_fitted_def example_graph_def init_cbir_def empty_graph_def
      add_node_def add_edge_def has_node_def node_ids_def group_features_def upt_rec Let_def
      eval_nat_numeral fun_eq_iff)
  have p: "propagate blank_config ''c'' example_fitted = Some (Inr example_fitted)"
    by (simp add: propagate_def blank_config_def)
  have i: "index blank_config False example_fitted = Some (Inr blank_indexed)"
    by (simp add: index_def set_weights_def dataset_len_def propagate_def record_visit_def
      blank_indexed_def blank_config_def example_fitted_def example_graph_def with_attrs_def
      graph_defs route_defs)
  from f p i show ?thesis
    by (simp add: blank_config_def blank_indexed_def with_attrs_def node_visits_def visit_count_def)
qed

text \<open>
  Claim C10 as amended.  On a fitted object, for an image all of whose feature vectors
  can be subtracted from the stored centres, \<open>propagate\<close> returns, and the visit count
  that the root (node 0) records for the image's id is the count before the call plus the
  number of the image's feature vectors; for an image without feature vectors the object
  is returned unchanged.  The reason is that every path that \<open>propagate_feature\<close>
  returns starts with the start node, which occurs nowhere else in the path.
  Consequently, after a sequential \<open>index\<close> (\<open>parallel=False\<close>) of a dataset whose
  feature vectors can all be subtracted from the centres, the root records for every
  image of the dataset a count of at least the number of its feature vectors: every
  indexed image with at least one feature vector has visited the root.
\<close>

theorem propagate_root_visits:
  assumes "fitted c s"
    and "\<forall>f \<in> set (extract_image_features c image_path). feature_fits s f"
  shows "(\<exists>s' k. propagate c image_path s = Some (Inr s') \<and>
           node_visits s 0 (get_image_id c image_path) = Fin (real k) \<and>
           node_visits s' 0 (get_image_id c image_path) =
             Fin (real (k + length (extract_image_features c image_path))) \<and>
           (extract_image_features c image_path = [] \<longrightarrow> s' = s)) \<and>
         (\<forall>f \<in> set (extract_image_features c image_path). \<forall>node \<le> current_index s.
            \<exists>trail. propagate_feature s f node = Some (Inr (node # trail)) \<and> node \<notin> set trail) \<and>
         ((\<forall>img \<in> set (all_images c). \<forall>f \<in> set (extract_image_features c img). feature_fits s f) \<longrightarrow>
          (\<exists>t. index c False s = Some (Inr t) \<and>
             (\<forall>img \<in> set (all_images c). \<exists>n \<ge> length (extract_image_features c img).
                node_visits t 0 (get_image_id c img) = Fin (real n))))"
proof -
  let ?fs = "extract_image_features c image_path"
  let ?i = "get_image_id c image_path"
  from fitted_invariants [OF assms(1)] have ok: "tree_ok s" and nat: "counts_nat s" by simp_all
  from nat obtain k :: nat where k: "node_visits s 0 ?i = Fin (real k)"
    by (auto simp: counts_nat_def)
  from propagate_root_count [OF ok assms(2)] obtain s' where
    run: "propagate c image_path s = Some (Inr s')"
    and grow: "node_visits s' 0 ?i = np_add (node_visits s 0 ?i) (Fin (real (length ?fs)))"
    by blast
  from grow k have after: "node_visits s' 0 ?i = Fin (real (k + length ?fs))" by simp
  have blank: "s' = s" if "?fs = []"
    using run propagate_no_features [OF that, of s] by simp
  have first: "\<exists>trail. propagate_feature s f node = Some (Inr (node # trail)) \<and> node \<notin> set trail"
    if "f \<in> set ?fs" and "node \<le> current_index s" for f node
  proof -
    from that(1) assms(2) have "feature_fits s f" by simp
    from propagate_feature_returns [OF ok this that(2)] show ?thesis by fastforce
  qed
  have indexed: "\<exists>t. index c False s = Some (Inr t) \<and>
             (\<forall>img \<in> set (all_images c). \<exists>n \<ge> length (extract_image_features c img).
                node_visits t 0 (get_image_id c img) = Fin (real n))"
    if fits: "\<forall>img \<in> set (all_images c). \<forall>f \<in> set (extract_image_features c img). feature_fits s f"
  proof -
    from index_root_counts [OF ok nat fits] obtain t1 where
      t1: "fold_res (propagate c) (all_images c) s = Some (Inr t1)"
      and each: "\<forall>img \<in> set (all_images c).
              root_count s (get_image_id c img) + length (extract_image_features c img)
                \<le> root_count t1 (get_image_id c img)"
      by blast
    let ?t = "set_weights (dataset_len c) t1"
    have run_index: "index c False s = Some (Inr ?t)"
      using t1 by (simp add: index_def)
    then have "fitted c ?t" using assms(1) by (blast intro: index_done)
    then have nat_t: "counts_nat ?t" using fitted_invariants by blast
    have "\<exists>n \<ge> length (extract_image_features c img).
                node_visits ?t 0 (get_image_id c img) = Fin (real n)"
      if "img \<in> set (all_images c)" for img
    proof -
      have "node_visits ?t 0 (get_image_id c img) = Fin (real (root_count ?t (get_image_id c img)))"
        unfolding root_count_def using nat_t by (rule counts_nat_count_of)
      moreover have "root_count ?t (get_image_id c img) = root_count t1 (get_image_id c img)"
        by (simp add: root_count_def node_visits_set_weights)
      moreover from each that have "length (extract_image_features c img)
          \<le> root_count t1 (get_image_id c img)" by fastforce
      ultimately show ?thesis by auto
    qed
    with run_index show ?thesis by blast
  qed
  from run k after blank first indexed show ?thesis by blast
qed

theorem propagate_root_visits_witness:
  "fitted example_config example_indexed \<and>
   all_images example_config = [''a'', ''b''] \<and>
   extract_image_features example_config ''a'' = [[1]] \<and>
   extract_image_features example_config ''b'' = [[9], [11]] \<and>
   feature_fits example_indexed [1] \<and>
   feature_fits example_indexed [9] \<and> feature_fits example_indexed [11] \<and>
   propagate example_config ''a'' example_indexed = Some (Inr example_queried) \<and>
   node_visits example_indexed 0 (get_image_id example_config ''a'') = Fin 1 \<and>
   node_visits example_queried 0 (get_image_id example_config ''a'') = Fin 2 \<and>
   propagate_feature example_indexed [1] 0 = Some (Inr [0, 1, 2]) \<and>
   index example_config False example_indexed = Some (Inr example_reindexed) \<and>
   node_visits example_reindexed 0 (get_image_id example_config ''a'') = Fin 2 \<and>
   node_visits example_reindexed 0 (get_image_id example_config ''b'') = Fin 4"
proof -
  have imgs: "all_images example_config = [''a'', ''b'']"
    by (simp add: example_config_def)
  have fs: "extract_image_features example_config ''a'' = [[1]]"
    "extract_image_features example_config ''b'' = [[9], [11]]"
    by (simp_all add: example_config_def)
  have fits: "feature_fits example_indexed [x]" for x
    using example_nodes_Vec by (simp add: feature_fits_def example_indexed_def with_attrs_def)
  have h: "\<forall>f \<in> set (extract_image_features example_config ''a''). feature_fits example_indexed f"
    by (simp add: fs fits)
  have h_all: "\<forall>img \<in> set (all_images example_config).
      \<forall>f \<in> set (extract_image_features example_config img). feature_fits example_indexed f"
    by (simp add: imgs fs fits)
  have run: "propagate example_config ''a'' example_indexed = Some (Inr example_queried)"
    using example_retrieve by (simp add: retrieve_def split: option.splits sum.splits)
  have v: "node_visits example_indexed 0 (get_image_id example_config ''a'') = Fin 1"
    "node_visits example_queried 0 (get_image_id example_config ''a'') = Fin 2"
    "node_visits example_reindexed 0 (get_image_id example_config ''a'') = Fin 2"
    "node_visits example_reindexed 0 (get_image_id example_config ''b'') = Fin 4"
    by (simp_all add: node_visits_def visit_count_def example_indexed_def example_queried_def
        example_reindexed_def with_attrs_def example_config_def)
  have route: "propagate_feature example_indexed [1] 0 = Some (Inr [0, 1, 2])"
    by (simp add: example_indexed_def example_defs graph_defs route_defs)
  show ?thesis
    using propagate_root_visits [OF example_indexed_is_fitted h] h_all
      example_indexed_is_fitted imgs fs fits run v route example_reindex
    by simp
qed

section \<open>Encoding an image that was never propagated\<close>

lemma np_sum_replicate_zero: "np_sum (replicate n (Fin 0)) = Fin 0"
  using np_sum_Fin [of "replicate n 0"] by (simp add: sum_list_replicate)

text \<open>
  Claim C4 asks that \<open>encode\<close> fails with an "image not indexed" condition for an image
  without recorded visits.  The source has no such check, and no error condition of its
  own anywhere: the division by the zero norm is carried out, and numpy answers \<open>0/0\<close>
  with \<open>nan\<close>.  On the fitted example, where nothing has been propagated yet, the
  result is a vector of five \<open>nan\<close> and no error.
\<close>

theorem encode_unindexed_returns:
  "(\<forall>n. node_visits example_fitted n ''a'' = Fin 0) \<and>
   encode example_fitted ''a'' = Inr [NaN, NaN, NaN, NaN, NaN] \<and>
   (\<forall>e. encode example_fitted ''a'' \<noteq> Inl e)"
proof -
  have "node_visits example_fitted n ''a'' = Fin 0" for n
    by (simp add: node_visits_def example_fitted_def example_graph_def visit_count_def)
  moreover have "encode example_fitted ''a'' = Inr [NaN, NaN, NaN, NaN, NaN]"
    by (simp add: encode_def example_fitted_def example_graph_def visit_count_def norm_l1_def
        np_sum_def signed_inf_def)
  ultimately show ?thesis by simp
qed

text \<open>
  Claim C4 as amended.  On a graph with at least one node, \<open>encode\<close> of an image whose
  visit count is zero at every node raises nothing and returns a vector with one entry
  per node, every entry \<open>nan\<close>.
\<close>

theorem encode_unvisited_is_nan:
  assumes "node_attrs (graph s) \<noteq> []"
    and "\<forall>(n, a) \<in> set (node_attrs (graph s)). visit_count a image_id = Fin 0"
  shows "encode s image_id = Inr (replicate (length (node_attrs (graph s))) NaN)"
proof -
  let ?al = "node_attrs (graph s)"
  have tfidf: "map (\<lambda>(n, a). visit_count a image_id) ?al = replicate (length ?al) (Fin 0)"
    using assms(2) by (auto simp: map_replicate_const [symmetric] intro!: map_cong)
  have norm: "norm_l1 (replicate (length ?al) (Fin 0)) = Fin 0"
    by (simp add: norm_l1_def np_sum_replicate_zero)
  show ?thesis
    using assms(1) by (simp add: encode_def tfidf norm signed_inf_def)
qed

theorem encode_unvisited_is_nan_witness:
  "node_attrs (graph example_fitted) \<noteq> [] \<and>
   map (\<lambda>(n, a). visit_count a ''a'') (node_attrs (graph example_fitted))
     = [Fin 0, Fin 0, Fin 0, Fin 0, Fin 0] \<and>
   encode example_fitted ''a'' = Inr [NaN, NaN, NaN, NaN, NaN]"
proof -
  have h1: "node_attrs (graph example_fitted) \<noteq> []"
    by (simp add: example_fitted_def example_graph_def)
  have h2: "\<forall>(n, a) \<in> set (node_attrs (graph example_fitted)). visit_count a ''a'' = Fin 0"
    by (simp add: example_fitted_def example_graph_def visit_count_def)
  show ?thesis
    using encode_unvisited_is_nan [OF h1 h2] h1
    by (simp add: example_fitted_def example_graph_def visit_count_def eval_nat_numeral)
qed

section \<open>Encoding an image with visits\<close>

lemma tfidf_by_node:
  assumes "distinct (map fst al)"
  shows "map (\<lambda>(n, a). visit_count a i) al =
         map (\<lambda>n. case map_of al n of None \<Rightarrow> Fin 0 | Some a \<Rightarrow> visit_count a i) (map fst al)"
  using assms by (auto simp: comp_def intro!: map_cong)

lemma np_div_Fin_list:
  "t \<noteq> 0 \<Longrightarrow> map (\<lambda>x. np_div x (Fin t)) (map Fin xs) = map Fin (map (\<lambda>x. x / t) xs)"
  by simp

lemma sum_list_divide_const:
  "sum_list (map (\<lambda>x. x / t) xs) = sum_list xs / (t :: real)"
  by (induction xs) (simp_all add: add_divide_distrib)

lemma example_queried_is_fitted: "fitted example_config example_queried"
  using example_indexed_is_fitted example_retrieve by (rule retrieve_done)

text \<open>
  Claim C7.  On a fitted object, for an image with a visit count other than zero at some
  node, \<open>encode\<close> returns a vector with one entry per node whose entries sum to exactly
  1; the entry at position \<open>n\<close> is the visit count of the image at node \<open>n\<close> divided by
  the sum of its visit counts over all nodes, which is positive.
\<close>

theorem encode_sums_to_one:
  assumes "fitted c s" and "\<exists>n. node_visits s n image_id \<noteq> Fin 0"
  shows "\<exists>v total. encode s image_id = Inr v \<and> np_sum v = Fin 1 \<and>
           length v = length (node_ids (graph s)) \<and> 0 < total \<and>
           np_sum (map (\<lambda>n. node_visits s n image_id) (node_ids (graph s))) = Fin (real total) \<and>
           (\<forall>n<length v. \<exists>k. node_visits s n image_id = Fin (real k) \<and>
                               v ! n = Fin (real k / real total))"
proof -
  let ?al = "node_attrs (graph s)"
  let ?ids = "node_ids (graph s)"
  let ?k = "\<lambda>n. count_of (node_visits s n image_id)"
  define total where "total = sum_list (map ?k ?ids)"
  let ?xs = "map (\<lambda>n. real (?k n)) ?ids"
  from fitted_invariants [OF assms(1)] have ok: "tree_ok s" and nat: "counts_nat s" by simp_all
  from ok have ids: "?ids = [0..<Suc (current_index s)]" by (simp add: tree_ok_def)
  then have dist: "distinct (map fst ?al)" by (simp add: node_ids_def del: upt_Suc)
  have ne: "?al \<noteq> []" using ids by (auto simp: node_ids_def)
  have visits: "node_visits s n image_id = Fin (real (?k n))" for n
    using nat by (rule counts_nat_count_of)
  have tfidf: "map (\<lambda>(n, a). visit_count a image_id) ?al = map Fin ?xs"
    unfolding tfidf_by_node [OF dist]
    using visits by (simp add: node_visits_def node_ids_def comp_def)
  have sum_xs: "sum_list ?xs = real total"
    by (simp add: total_def comp_def flip: sum_list_of_nat)
  have "map np_abs (map Fin ?xs) = map Fin ?xs" by (simp add: comp_def)
  then have norm: "norm_l1 (map Fin ?xs) = Fin (real total)"
    by (simp only: norm_l1_def np_sum_Fin sum_xs)
  from assms(2) obtain n where n: "node_visits s n image_id \<noteq> Fin 0" by blast
  have "n \<in> set ?ids"
  proof (rule ccontr)
    assume "n \<notin> set ?ids"
    then have "map_of ?al n = None" by (simp add: node_ids_def map_of_eq_None_iff)
    with n show False by (simp add: node_visits_def)
  qed
  moreover from n visits [of n] have "0 < ?k n" by (cases "?k n") auto
  ultimately have pos: "0 < total"
    using member_le_sum_list [of "?k n" "map ?k ?ids"] unfolding total_def by force
  let ?v = "map Fin (map (\<lambda>x. x / real total) ?xs)"
  have enc: "encode s image_id = Inr ?v"
    using ne pos by (simp only: encode_def tfidf norm Let_def np_div_Fin_list) simp
  have one: "np_sum ?v = Fin 1"
    using pos by (simp only: np_sum_Fin sum_list_divide_const sum_xs) simp
  have len: "length ?v = length ?ids" by simp
  have total: "np_sum (map (\<lambda>n. node_visits s n image_id) ?ids) = Fin (real total)"
  proof -
    have "map (\<lambda>n. node_visits s n image_id) ?ids = map Fin ?xs"
      using visits by (simp add: comp_def)
    then show ?thesis by (simp only: np_sum_Fin sum_xs)
  qed
  have entry: "\<exists>k. node_visits s m image_id = Fin (real k) \<and> ?v ! m = Fin (real k / real total)"
    if m: "m < length ?v" for m
  proof -
    from m have "m < Suc (current_index s)" by (simp add: ids del: upt_Suc)
    then have "?ids ! m = m" by (simp add: ids del: upt_Suc)
    with m have "?v ! m = Fin (real (?k m) / real total)" by simp
    with visits [of m] show ?thesis by blast
  qed
  from enc one len pos total entry show ?thesis by blast
qed

theorem encode_sums_to_one_witness:
  "fitted example_config example_queried \<and>
   node_visits example_queried 0 ''a'' = Fin 2 \<and>
   encode example_queried ''a'' = Inr [Fin (1 / 3), Fin (1 / 3), Fin (1 / 3), Fin 0, Fin 0] \<and>
   np_sum [Fin (1 / 3), Fin (1 / 3), Fin (1 / 3), Fin 0, Fin 0] = Fin 1"
proof -
  have v: "node_visits example_queried 0 ''a'' = Fin 2"
    by (simp add: node_visits_def visit_count_def example_queried_def with_attrs_def)
  then have h: "\<exists>n. node_visits example_queried n ''a'' \<noteq> Fin 0" by (intro exI [of _ 0]) simp
  have e: "encode example_queried ''a'' = Inr [Fin (1 / 3), Fin (1 / 3), Fin (1 / 3), Fin 0, Fin 0]"
    by (simp add: encode_def visit_count_def norm_l1_def np_sum_def example_queried_def
        with_attrs_def)
  show ?thesis
    using encode_sums_to_one [OF example_queried_is_fitted h] example_queried_is_fitted v e
    by (simp add: np_sum_def)
qed

section \<open>Where the code departs from the claims\<close>

text \<open>
  Claim C3 says that the sequence returned by \<open>propagate_feature\<close> ends with a node that
  has no children.  The inner loop appends every child it scans, so the sequence ends
  with the last child of the last node whose children were scanned, whether or not that
  child is the one the descent moved to.  In the fitted example the feature \<open>[1]\<close> is
  nearest to node 1, a leaf, at which the descent stops; the sequence returned is
  \<open>0, 1, 2\<close>, and its last element, node 2, has two children.
\<close>

theorem route_ends_at_internal_node:
  "fit example_config example_clustering init_cbir None 0 None 0 = Inr example_fitted \<and>
   propagate_feature example_fitted [1] 0 = Some (Inr [0, 1, 2]) \<and>
   descend example_fitted [1] 1 [0, 1, 2] = Some (Inr [0, 1, 2]) \<and>
   last [0, 1, 2] = (2::nat) \<and>
   out_degree (graph example_fitted) 2 = Inr 2 \<and>
   out_degree (graph example_fitted) 1 = Inr 0"
  using example_fit
  by (simp add: example_defs graph_defs route_defs)

text \<open>
  Claim C2 says that the score of an encoded vector against itself is 0.  \<open>score\<close>
  computes \<open>2 - 2 * sum (d * q)\<close>, which is the squared Euclidean distance of vectors of
  Euclidean length one, while \<open>encode\<close> scales its vector to an absolute sum of one.
  After one \<open>propagate\<close> of the first image on the fitted example its vector is
  \<open>1/3, 1/3, 1/3, 0, 0\<close> and its score against itself is \<open>4/3\<close>.
\<close>

theorem self_score_not_zero:
  "fit example_config example_clustering init_cbir None 0 None 0 = Inr example_fitted \<and>
   propagate example_config ''a'' example_fitted = Some (Inr example_visited) \<and>
   encode example_visited ''a'' = Inr [Fin (1 / 3), Fin (1 / 3), Fin (1 / 3), Fin 0, Fin 0] \<and>
   score example_config example_visited ''a'' ''a'' = Inr (Fin (4 / 3))"
  using example_fit example_propagate
  by (simp add: score_def encode_def visit_count_def norm_l1_def np_sum_def np_sub_def
      example_visited_def example_defs)

text \<open>
  Claim C1 says that after \<open>index\<close> every visited node has the weight \<open>ln (N / N_i)\<close> with
  \<open>N_i\<close> the number of distinct images recorded at the node.  \<open>index\<close> takes \<open>N_i\<close> to be
  the length of the whole attribute dictionary, which after an earlier \<open>index\<close> also
  holds the weight itself.  The example has two images.  A second sequential \<open>index\<close>
  gives node 0, visited by both images, the weight \<open>ln (2 / 3)\<close> instead of
  \<open>ln (2 / 2)\<close>, and node 3, visited by one image, the weight \<open>ln (2 / 2) = 0\<close> instead
  of \<open>ln (2 / 1)\<close>.
\<close>

theorem reindex_counts_weight_key:
  "fit example_config example_clustering init_cbir None 0 None 0 = Inr example_fitted \<and>
   index example_config False example_fitted = Some (Inr example_indexed) \<and>
   index example_config False example_indexed = Some (Inr example_reindexed) \<and>
   dataset_len example_config = 2 \<and>
   map_of (node_attrs (graph example_reindexed)) 0 =
     Some [(Img ''a'', Fin 2), (Img ''b'', Fin 4), (W, Fin (ln (2 / 3)))] \<and>
   map_of (node_attrs (graph example_reindexed)) 3 = Some [(Img ''b'', Fin 4), (W, Fin 0)] \<and>
   ln (2 / 3 :: real) \<noteq> ln (2 / 2) \<and> (0 :: real) \<noteq> ln (2 / 1)"
proof -
  have "index example_config False example_indexed = Some (Inr example_reindexed)"
    by (simp add: index_def set_weights_def dataset_len_def propagate_def record_visit_def
      example_indexed_def example_reindexed_def example_defs graph_defs route_defs)
  then show ?thesis
    using example_fit example_index
    by (simp add: dataset_len_def example_reindexed_def example_defs)
qed

text \<open>
  On an object whose nodes carry no weight yet, as \<open>fit\<close> and any number of \<open>propagate\<close>
  and \<open>retrieve\<close> calls leave it, \<open>index\<close> does give every node with recorded images the
  weight \<open>ln (N / N_i)\<close> for the number \<open>N_i\<close> of its image entries, and leaves the other
  nodes without a weight.
\<close>

definition no_weights :: "'id cbir \<Rightarrow> bool" where
  "no_weights s \<longleftrightarrow> (\<forall>(n, a) \<in> set (node_attrs (graph s)). map_of a W = None)"

lemma set_update_cases:
  "p \<in> set (AList.update k v al) \<Longrightarrow> p = (k, v) \<or> p \<in> set al"
  by (induction al) (auto split: if_splits)

lemma update_absent: "map_of al k = None \<Longrightarrow> AList.update k v al = al @ [(k, v)]"
  by (induction al) (auto split: if_splits)

lemma filter_no_W:
  "map_of a W = None \<Longrightarrow> filter (\<lambda>(k, v). k \<noteq> W) a = a"
  by (induction a) (auto split: if_splits)

lemma record_visit_no_weights:
  assumes "record_visit i n s = Inr s'" and "no_weights s"
  shows "no_weights s'"
proof -
  from record_visit_unfold [OF assms(1)] obtain a where
    a: "map_of (node_attrs (graph s)) n = Some a" and
    s': "s' = s\<lparr>graph := set_attrs n
                  (AList.update (Img i) (np_add (visit_count a i) (Fin 1)) a) (graph s)\<rparr>"
    by blast
  from a have "(n, a) \<in> set (node_attrs (graph s))" by (rule map_of_SomeD)
  with assms(2) have "map_of a W = None" by (auto simp: no_weights_def)
  then have new: "map_of (AList.update (Img i) (np_add (visit_count a i) (Fin 1)) a) W = None"
    by (simp add: update_conv')
  show ?thesis
    unfolding no_weights_def s'
    using assms(2) new by (auto simp: set_attrs_def no_weights_def dest!: set_update_cases)
qed

lemma propagate_no_weights:
  assumes "propagate c image_path s = Some (Inr s')" and "no_weights s"
  shows "no_weights s'"
proof -
  let ?step = "\<lambda>feature s1.
       case propagate_feature s1 feature 0 of
         None \<Rightarrow> None
       | Some (Inl e) \<Rightarrow> Some (Inl e)
       | Some (Inr path) \<Rightarrow>
           Some (fold_err (record_visit (get_image_id c image_path)) path s1)"
  from assms(1) have run: "fold_res ?step (extract_image_features c image_path) s = Some (Inr s')"
    by (simp add: propagate_def Let_def)
  show ?thesis
  proof (rule fold_res_invariant [OF run, where P = no_weights])
    show "no_weights s" by (rule assms(2))
  next
    fix x t t'
    assume t: "no_weights t" and step: "?step x t = Some (Inr t')"
    from step obtain path where
      visits: "fold_err (record_visit (get_image_id c image_path)) path t = Inr t'"
      by (auto split: option.splits sum.splits)
    show "no_weights t'"
      by (rule fold_err_invariant [where P = no_weights, OF visits t])
        (blast intro: record_visit_no_weights)
  qed
qed

lemma map_of_snoc_absent: "map_of a k = None \<Longrightarrow> map_of (a @ [(k, v)]) k = Some v"
  by (simp add: map_add_def)

lemma weigh_fresh:
  assumes "map_of a W = None"
  shows "(let visited = filter (\<lambda>(k, v). k \<noteq> W) (weigh N a)
          in if visited = [] then map_of (weigh N a) W = None
             else map_of (weigh N a) W = Some (np_log (Fin (real N / real (length visited)))))"
proof (cases "a = []")
  case True
  then show ?thesis by (simp add: weigh_def)
next
  case False
  define w where "w = np_log (Fin (real N / real (length a)))"
  have wa: "weigh N a = a @ [(W, w)]"
    using False assms by (simp add: weigh_def update_absent w_def)
  have vis: "filter (\<lambda>(k, v). k \<noteq> W) (weigh N a) = a"
    using assms by (simp add: wa filter_no_W)
  have "map_of (weigh N a) W = Some w"
    unfolding wa using assms by (rule map_of_snoc_absent)
  with False show ?thesis
    unfolding Let_def vis by (simp add: w_def)
qed

lemma first_index_weights:
  assumes "index c parallel s = Some (Inr s')" and "no_weights s"
  shows "\<forall>(n, a) \<in> set (node_attrs (graph s')).
           (let visited = filter (\<lambda>(k, v). k \<noteq> W) a
            in if visited = [] then map_of a W = None
               else map_of a W =
                      Some (np_log (Fin (real (dataset_len c) / real (length visited)))))"
proof -
  from assms(1) obtain s1 where
    s1: "(if parallel then Some (Inr s) else fold_res (propagate c) (all_images c) s) = Some (Inr s1)"
    and s': "s' = set_weights (dataset_len c) s1"
    by (auto simp: index_def split: option.splits sum.splits)
  have fresh: "no_weights s1"
  proof (cases parallel)
    case True
    with s1 assms(2) show ?thesis by simp
  next
    case False
    with s1 have run: "fold_res (propagate c) (all_images c) s = Some (Inr s1)" by simp
    show ?thesis
      by (rule fold_res_invariant [OF run, where P = no_weights])
        (blast intro: assms(2) propagate_no_weights)+
  qed
  have "let visited = filter (\<lambda>(k, v). k \<noteq> W) a
        in if visited = [] then map_of a W = None
           else map_of a W = Some (np_log (Fin (real (dataset_len c) / real (length visited))))"
    if "(n, a) \<in> set (node_attrs (graph s'))" for n a
  proof -
    from that obtain a0 where a0: "(n, a0) \<in> set (node_attrs (graph s1))"
      and a: "a = weigh (dataset_len c) a0"
      by (auto simp: s' set_weights_weigh)
    from fresh a0 have "map_of a0 W = None" by (auto simp: no_weights_def)
    then show ?thesis unfolding a by (rule weigh_fresh)
  qed
  then show ?thesis by blast
qed

end
